theory Spec2Isabelle
  imports Main "HOL-Library.AList"
begin

section \<open>The data model of the caches\<close>

text \<open>
  The repository holds three caches: \<open>CacheManager\<close> of
  \<open>Final - ApexAnalytics/core/data_cache.py\<close> (memory tier with eviction, pickle files),
  \<open>CacheManager\<close> of \<open>Beta3/data_cache.py\<close> (memory tier without bound, pickle files)
  and \<open>DataCache\<close> of \<open>Final - Dashboard UI/core/data_cache.py\<close> (memory only).

  A \<open>datetime\<close> is an integer count of microseconds and a \<open>timedelta\<close> the difference
  of two of them, so \<open>datetime.now() - timestamp < self.expiry_delta\<close> is exact integer
  arithmetic. Every call of \<open>datetime.now()\<close> is a parameter of the operation that
  makes it.

  A Python \<open>dict\<close> iterates in insertion order, and \<open>min\<close> returns the first minimal
  element of that order, so \<open>memory_cache\<close> is an association list: \<open>d[k] = v\<close> is
  \<open>AList.update\<close> (in place for a key that is present, at the end for a new key),
  \<open>del d[k]\<close> is \<open>AList.delete\<close>, \<open>k in d\<close> and \<open>d[k]\<close> are \<open>map_of\<close>.

  The directory \<open>cache_dir\<close> is the association list of its files by name. A file holds
  either the pickle of a pair \<open>(data, timestamp)\<close> or anything else: bytes that
  \<open>pickle.load\<close> rejects, or that do not unpack into such a pair; a file that cannot
  be opened for reading behaves in the same way. The directory itself is taken to be
  accessible. The \<open>print\<close> calls of the \<open>except\<close> clauses are not modelled.
\<close>

datatype exn = ValueError | UnpicklingError | PicklingError | OSError

datatype 'v content = Pickled 'v int | Garbage

text \<open>
  What the operating system does with \<open>open(cache_path, 'wb')\<close> followed by
  \<open>pickle.dump\<close>: both succeed; \<open>open\<close> raises and the directory is as before; or
  \<open>open\<close> has created or truncated the file and \<open>pickle.dump\<close> raises (a value that
  cannot be pickled, a full disk), which leaves a truncated file behind. The outcome is
  the operating system's; for a name longer than \<open>NAME_MAX\<close> it is the second one.
\<close>

datatype write_result = Written | Open_Fails | Dump_Fails

record 'v cache_manager =
  cache_dir :: "(string \<times> 'v content) list"
  expiry_delta :: int
  memory_cache :: "(string \<times> ('v \<times> int)) list"
  max_memory_items :: nat

section \<open>Primitives of the storage layer\<close>

definition pickle_load :: "'v content \<Rightarrow> exn + ('v \<times> int)" where
  "pickle_load f = (case f of Pickled data timestamp \<Rightarrow> Inr (data, timestamp)
                            | Garbage \<Rightarrow> Inl UnpicklingError)"

text \<open>
  \<open>Path.unlink\<close> removes the file, or raises: when the file is missing, and when the
  operating system refuses (\<open>unlink_ok\<close> false).
\<close>

definition unlink :: "bool \<Rightarrow> string \<Rightarrow> (string \<times> 'v content) list
    \<Rightarrow> exn + (string \<times> 'v content) list" where
  "unlink unlink_ok path dir =
     (if unlink_ok \<and> map_of dir path \<noteq> None then Inr (AList.delete path dir)
      else Inl OSError)"

text \<open>
  \<open>Path.exists\<close> calls \<open>stat\<close> and turns the errors of a missing file into
  \<open>False\<close>, but lets every other \<open>OSError\<close> through. A name in the directory is a
  name the file system has accepted; for a name that is not there, \<open>stat\<close> fails with
  \<open>ENAMETOOLONG\<close> when the name is longer than \<open>NAME_MAX\<close>, 255 bytes, and that
  error is raised by \<open>exists\<close>.
\<close>

definition name_max :: nat where
  "name_max = 255"

definition path_exists :: "(string \<times> 'v content) list \<Rightarrow> string \<Rightarrow> exn + bool" where
  "path_exists dir path =
     (case map_of dir path of
        Some f \<Rightarrow> Inr True
      | None \<Rightarrow> if length path > name_max then Inl OSError else Inr False)"

definition pickle_dump :: "write_result \<Rightarrow> string \<Rightarrow> 'v \<Rightarrow> int
    \<Rightarrow> (string \<times> 'v content) list \<Rightarrow> exn option \<times> (string \<times> 'v content) list" where
  "pickle_dump wr path data timestamp dir =
     (case wr of
        Written \<Rightarrow> (None, AList.update path (Pickled data timestamp) dir)
      | Open_Fails \<Rightarrow> (Some OSError, dir)
      | Dump_Fails \<Rightarrow> (Some PicklingError, AList.update path Garbage dir))"

text \<open>\<open>str.replace\<close> with one-character arguments.\<close>

definition replace :: "char \<Rightarrow> char \<Rightarrow> string \<Rightarrow> string" where
  "replace old new s = map (\<lambda>ch. if ch = old then new else ch) s"

section \<open>CacheManager of Final - ApexAnalytics\<close>

text \<open>
  \<open>safe_key = key.replace('/', '_').replace('\\', '_').replace(':', '_')\<close>, then
  \<open>self.cache_dir / f"{safe_key}.pkl"\<close>. The result is the file's name in the directory;
  character \<open>0x5C\<close> is the backslash.
\<close>

text \<open>
  \<open>__init__\<close> on a directory with the files \<open>dir\<close>: \<open>timedelta(hours=expiry_hours)\<close>
  in microseconds, an empty memory tier and the capacity 50.
\<close>

definition init :: "(string \<times> 'v content) list \<Rightarrow> int \<Rightarrow> 'v cache_manager" where
  "init dir expiry_hours =
     \<lparr>cache_dir = dir, expiry_delta = expiry_hours * 3600000000,
      memory_cache = [], max_memory_items = 50\<rparr>"

definition get_cache_path :: "string \<Rightarrow> string" where
  "get_cache_path key =
     (let safe_key = replace (CHR '':'') (CHR ''_'')
                       (replace (CHR 0x5C) (CHR ''_'')
                          (replace (CHR ''/'') (CHR ''_'') key))
      in safe_key @ ''.pkl'')"

text \<open>
  \<open>min(items, key=lambda x: x[1][1])\<close> over the items after the first one, \<open>best\<close> being
  the minimum so far: a later item replaces it only when its timestamp is strictly smaller.
\<close>

fun min_item :: "string \<times> ('v \<times> int) \<Rightarrow> (string \<times> ('v \<times> int)) list
    \<Rightarrow> string \<times> ('v \<times> int)" where
  "min_item best [] = best"
| "min_item best (x # xs) = min_item (if snd (snd x) < snd (snd best) then x else best) xs"

text \<open>\<open>min\<close> of an empty sequence raises \<open>ValueError\<close>.\<close>

definition oldest_key :: "(string \<times> ('v \<times> int)) list \<Rightarrow> exn + string" where
  "oldest_key items = (case items of [] \<Rightarrow> Inl ValueError
                                    | x # xs \<Rightarrow> Inr (fst (min_item x xs)))"

definition set_memory_cache :: "'v cache_manager \<Rightarrow> string \<Rightarrow> 'v \<Rightarrow> int
    \<Rightarrow> exn + 'v cache_manager" where
  "set_memory_cache c key data timestamp =
     (if length (memory_cache c) \<ge> max_memory_items c then
        (case oldest_key (memory_cache c) of
           Inl e \<Rightarrow> Inl e
         | Inr k \<Rightarrow> Inr (c\<lparr>memory_cache :=
                      AList.update key (data, timestamp) (AList.delete k (memory_cache c))\<rparr>))
      else Inr (c\<lparr>memory_cache := AList.update key (data, timestamp) (memory_cache c)\<rparr>))"

text \<open>
  The body of the \<open>try\<close> of \<open>get\<close> once \<open>open\<close> has given the content \<open>f\<close> of
  the file: \<open>Inl\<close> is an exception on its way to the \<open>except\<close> clause. Each
  statement that can raise does so before it changes anything.
\<close>

definition get_try :: "'v cache_manager \<Rightarrow> string \<Rightarrow> 'v content \<Rightarrow> int \<Rightarrow> bool
    \<Rightarrow> exn + ('v option \<times> 'v cache_manager)" where
  "get_try c key f now unlink_ok =
     (case pickle_load f of
        Inl e \<Rightarrow> Inl e
      | Inr (data, timestamp) \<Rightarrow>
          if now - timestamp > expiry_delta c then
            (case unlink unlink_ok (get_cache_path key) (cache_dir c) of
               Inl e \<Rightarrow> Inl e
             | Inr dir \<Rightarrow> Inr (None, c\<lparr>cache_dir := dir\<rparr>))
          else
            (case set_memory_cache c key data timestamp of
               Inl e \<Rightarrow> Inl e
             | Inr c' \<Rightarrow> Inr (Some data, c')))"

text \<open>
  The part of \<open>get\<close> from \<open>cache_path = self._get_cache_path(key)\<close> on.
  \<open>cache_path.exists()\<close> stands before the \<open>try\<close>: an exception it raises leaves
  \<open>get\<close>, and \<open>Inl\<close> holds it together with the store at that moment. Inside the
  \<open>try\<close>, \<open>open\<close> of a missing file raises and every exception ends in
  \<open>return None\<close>.
\<close>

definition get_disk :: "'v cache_manager \<Rightarrow> string \<Rightarrow> int \<Rightarrow> bool
    \<Rightarrow> (exn \<times> 'v cache_manager) + ('v option \<times> 'v cache_manager)" where
  "get_disk c key now unlink_ok =
     (case path_exists (cache_dir c) (get_cache_path key) of
        Inl e \<Rightarrow> Inl (e, c)
      | Inr found \<Rightarrow>
          if \<not> found then Inr (None, c)
          else
            (case map_of (cache_dir c) (get_cache_path key) of
               None \<Rightarrow> Inr (None, c)
             | Some f \<Rightarrow>
                 (case get_try c key f now unlink_ok of
                    Inl e \<Rightarrow> Inr (None, c)
                  | Inr r \<Rightarrow> Inr r)))"

text \<open>
  \<open>get(key, use_memory)\<close>. \<open>now_mem\<close> and \<open>now_disk\<close> are the two readings of the clock,
  \<open>unlink_ok\<close> says whether \<open>cache_path.unlink()\<close> would succeed. The result is \<open>Inl\<close>
  for an exception that leaves \<open>get\<close>, with the store it leaves behind (an expired
  memory entry is already gone then), else the returned value (\<open>None\<close> for Python's
  \<open>None\<close>) and the state after the call.
\<close>

definition get :: "'v cache_manager \<Rightarrow> string \<Rightarrow> bool \<Rightarrow> int \<Rightarrow> int \<Rightarrow> bool
    \<Rightarrow> (exn \<times> 'v cache_manager) + ('v option \<times> 'v cache_manager)" where
  "get c key use_memory now_mem now_disk unlink_ok =
     (case (if use_memory then map_of (memory_cache c) key else None) of
        Some (data, timestamp) \<Rightarrow>
          if now_mem - timestamp < expiry_delta c then Inr (Some data, c)
          else get_disk (c\<lparr>memory_cache := AList.delete key (memory_cache c)\<rparr>)
                 key now_disk unlink_ok
      | None \<Rightarrow> get_disk c key now_disk unlink_ok)"

text \<open>\<open>set(key, data, persist)\<close> at time \<open>now\<close>; \<open>wr\<close> is the fate of the file write.\<close>

definition set_cache :: "'v cache_manager \<Rightarrow> string \<Rightarrow> 'v \<Rightarrow> bool \<Rightarrow> int \<Rightarrow> write_result
    \<Rightarrow> exn + (bool \<times> 'v cache_manager)" where
  "set_cache c key data persist now wr =
     (case set_memory_cache c key data now of
        Inl e \<Rightarrow> Inl e
      | Inr c' \<Rightarrow>
          if persist then
            (case pickle_dump wr (get_cache_path key) data now (cache_dir c') of
               (None, dir) \<Rightarrow> Inr (True, c'\<lparr>cache_dir := dir\<rparr>)
             | (Some e, dir) \<Rightarrow> Inr (False, c'\<lparr>cache_dir := dir\<rparr>))
          else Inr (True, c'))"

text \<open>
  \<open>delete(key)\<close>. The memory entry goes first; \<open>cache_path.exists()\<close> is not inside
  the \<open>try\<close>, so its exception leaves \<open>delete\<close>; a failing \<open>unlink\<close> is caught and
  reported by \<open>False\<close>.
\<close>

definition delete :: "'v cache_manager \<Rightarrow> string \<Rightarrow> bool
    \<Rightarrow> (exn \<times> 'v cache_manager) + (bool \<times> 'v cache_manager)" where
  "delete c key unlink_ok =
     (let c' = c\<lparr>memory_cache := AList.delete key (memory_cache c)\<rparr>
      in case path_exists (cache_dir c') (get_cache_path key) of
           Inl e \<Rightarrow> Inl (e, c')
         | Inr found \<Rightarrow>
             if found then
               (case unlink unlink_ok (get_cache_path key) (cache_dir c') of
                  Inr dir \<Rightarrow> Inr (True, c'\<lparr>cache_dir := dir\<rparr>)
                | Inl e \<Rightarrow> Inr (False, c'))
             else Inr (True, c'))"

text \<open>\<open>self.cache_dir.glob('*.pkl')\<close>: the names of the directory that end in \<open>.pkl\<close>.\<close>

definition is_pkl :: "string \<Rightarrow> bool" where
  "is_pkl name = (length name \<ge> 4 \<and> drop (length name - 4) name = ''.pkl'')"

definition glob_pkl :: "(string \<times> 'v content) list \<Rightarrow> string list" where
  "glob_pkl dir = filter is_pkl (map fst dir)"

text \<open>
  The loop of \<open>clear_all\<close> over the globbed names; \<open>unlink_ok\<close> says, for each file,
  whether its \<open>unlink\<close> succeeds. A failure is printed and the loop goes on.
\<close>

fun clear_files :: "(string \<Rightarrow> bool) \<Rightarrow> string list \<Rightarrow> nat \<times> (string \<times> 'v content) list
    \<Rightarrow> nat \<times> (string \<times> 'v content) list" where
  "clear_files unlink_ok [] (deleted_count, dir) = (deleted_count, dir)"
| "clear_files unlink_ok (cache_file # rest) (deleted_count, dir) =
     (case unlink (unlink_ok cache_file) cache_file dir of
        Inr dir' \<Rightarrow> clear_files unlink_ok rest (deleted_count + 1, dir')
      | Inl e \<Rightarrow> clear_files unlink_ok rest (deleted_count, dir))"

definition clear_all :: "'v cache_manager \<Rightarrow> (string \<Rightarrow> bool) \<Rightarrow> nat \<times> 'v cache_manager" where
  "clear_all c unlink_ok =
     (let c' = c\<lparr>memory_cache := []\<rparr>;
          (deleted_count, dir) = clear_files unlink_ok (glob_pkl (cache_dir c')) (0, cache_dir c')
      in (deleted_count, c'\<lparr>cache_dir := dir\<rparr>))"

section \<open>CacheManager of Beta3\<close>

text \<open>
  The same two tiers without a bound on the memory tier. \<open>set\<close>, \<open>delete\<close> and
  \<open>clear_all\<close> have no \<open>return\<close> statement: what they return is Python's \<open>None\<close>,
  the \<open>None\<close> of the option type here, as for \<open>get\<close>.
\<close>

record 'v cache_manager_b3 =
  cache_dir_b3 :: "(string \<times> 'v content) list"
  expiry_delta_b3 :: int
  memory_cache_b3 :: "(string \<times> ('v \<times> int)) list"

text \<open>\<open>safe_key = key.replace('/', '_').replace('\\', '_')\<close>: colons stay.\<close>

definition get_cache_path_b3 :: "string \<Rightarrow> string" where
  "get_cache_path_b3 key =
     (let safe_key = replace (CHR 0x5C) (CHR ''_'') (replace (CHR ''/'') (CHR ''_'') key)
      in safe_key @ ''.pkl'')"

definition get_try_b3 :: "'v cache_manager_b3 \<Rightarrow> string \<Rightarrow> 'v content \<Rightarrow> int \<Rightarrow> bool
    \<Rightarrow> exn + ('v option \<times> 'v cache_manager_b3)" where
  "get_try_b3 c key f now unlink_ok =
     (case pickle_load f of
        Inl e \<Rightarrow> Inl e
      | Inr (data, timestamp) \<Rightarrow>
          if now - timestamp > expiry_delta_b3 c then
            (case unlink unlink_ok (get_cache_path_b3 key) (cache_dir_b3 c) of
               Inl e \<Rightarrow> Inl e
             | Inr dir \<Rightarrow> Inr (None, c\<lparr>cache_dir_b3 := dir\<rparr>))
          else
            Inr (Some data,
                 c\<lparr>memory_cache_b3 := AList.update key (data, timestamp) (memory_cache_b3 c)\<rparr>))"

definition get_disk_b3 :: "'v cache_manager_b3 \<Rightarrow> string \<Rightarrow> int \<Rightarrow> bool
    \<Rightarrow> (exn \<times> 'v cache_manager_b3) + ('v option \<times> 'v cache_manager_b3)" where
  "get_disk_b3 c key now unlink_ok =
     (case path_exists (cache_dir_b3 c) (get_cache_path_b3 key) of
        Inl e \<Rightarrow> Inl (e, c)
      | Inr found \<Rightarrow>
          if \<not> found then Inr (None, c)
          else
            (case map_of (cache_dir_b3 c) (get_cache_path_b3 key) of
               None \<Rightarrow> Inr (None, c)
             | Some f \<Rightarrow>
                 (case get_try_b3 c key f now unlink_ok of
                    Inl e \<Rightarrow> Inr (None, c)
                  | Inr r \<Rightarrow> Inr r)))"

definition get_b3 :: "'v cache_manager_b3 \<Rightarrow> string \<Rightarrow> int \<Rightarrow> int \<Rightarrow> bool
    \<Rightarrow> (exn \<times> 'v cache_manager_b3) + ('v option \<times> 'v cache_manager_b3)" where
  "get_b3 c key now_mem now_disk unlink_ok =
     (case map_of (memory_cache_b3 c) key of
        Some (data, timestamp) \<Rightarrow>
          if now_mem - timestamp < expiry_delta_b3 c then Inr (Some data, c)
          else get_disk_b3 (c\<lparr>memory_cache_b3 := AList.delete key (memory_cache_b3 c)\<rparr>)
                 key now_disk unlink_ok
      | None \<Rightarrow> get_disk_b3 c key now_disk unlink_ok)"

text \<open>
  \<open>set(key, data)\<close>: the exception of a failed write is printed, and the function ends
  without a \<open>return\<close> in either case.
\<close>

definition set_b3 :: "'v cache_manager_b3 \<Rightarrow> string \<Rightarrow> 'v \<Rightarrow> int \<Rightarrow> write_result
    \<Rightarrow> bool option \<times> 'v cache_manager_b3" where
  "set_b3 c key data now wr =
     (let c' = c\<lparr>memory_cache_b3 := AList.update key (data, now) (memory_cache_b3 c)\<rparr>
      in case pickle_dump wr (get_cache_path_b3 key) data now (cache_dir_b3 c') of
           (None, dir) \<Rightarrow> (None, c'\<lparr>cache_dir_b3 := dir\<rparr>)
         | (Some e, dir) \<Rightarrow> (None, c'\<lparr>cache_dir_b3 := dir\<rparr>))"

text \<open>
  \<open>clear_all()\<close>: the same loop as in the final version, without the counter and
  without a returned value.
\<close>

fun clear_files_b3 :: "(string \<Rightarrow> bool) \<Rightarrow> string list \<Rightarrow> (string \<times> 'v content) list
    \<Rightarrow> (string \<times> 'v content) list" where
  "clear_files_b3 unlink_ok [] dir = dir"
| "clear_files_b3 unlink_ok (cache_file # rest) dir =
     (case unlink (unlink_ok cache_file) cache_file dir of
        Inr dir' \<Rightarrow> clear_files_b3 unlink_ok rest dir'
      | Inl e \<Rightarrow> clear_files_b3 unlink_ok rest dir)"

definition clear_all_b3 :: "'v cache_manager_b3 \<Rightarrow> (string \<Rightarrow> bool)
    \<Rightarrow> nat option \<times> 'v cache_manager_b3" where
  "clear_all_b3 c unlink_ok =
     (let c' = c\<lparr>memory_cache_b3 := []\<rparr>
      in (None, c'\<lparr>cache_dir_b3 :=
                     clear_files_b3 unlink_ok (glob_pkl (cache_dir_b3 c')) (cache_dir_b3 c')\<rparr>))"

section \<open>DataCache of Final - Dashboard UI\<close>

text \<open>
  A dictionary from key to \<open>(timestamp, value)\<close> with \<open>time.time()\<close> as the clock. The
  type of the clock is left open: the code only subtracts two readings and compares the
  difference with \<open>ttl_seconds\<close>. An entry is a pair, which is never falsy, so
  \<open>if not entry\<close> holds exactly when the key is missing.
\<close>

record ('v, 't) data_cache =
  ttl_seconds :: 't
  store :: "(string \<times> ('t \<times> 'v)) list"

definition get_dc :: "('v, 't::{minus,linorder}) data_cache \<Rightarrow> string \<Rightarrow> 't
    \<Rightarrow> 'v option \<times> ('v, 't) data_cache" where
  "get_dc d key now =
     (case map_of (store d) key of
        None \<Rightarrow> (None, d)
      | Some (timestamp, v) \<Rightarrow>
          if now - timestamp > ttl_seconds d then (None, d\<lparr>store := AList.delete key (store d)\<rparr>)
          else (Some v, d))"

definition set_dc :: "('v, 't) data_cache \<Rightarrow> string \<Rightarrow> 'v \<Rightarrow> 't \<Rightarrow> ('v, 't) data_cache" where
  "set_dc d key v now = d\<lparr>store := AList.update key (now, v) (store d)\<rparr>"

definition clear_dc :: "('v, 't) data_cache \<Rightarrow> ('v, 't) data_cache" where
  "clear_dc d = d\<lparr>store := []\<rparr>"

section \<open>Sequences of calls on the final CacheManager\<close>

text \<open>
  A call of one of the four public operations, with the clock readings and the outcomes
  of the storage layer it meets.
\<close>

datatype 'v call =
    Get string bool int int bool
  | Set string 'v bool int write_result
  | Delete string bool
  | Clear_All "string \<Rightarrow> bool"

text \<open>
  The store after a call, whether it returns or raises. A \<open>set\<close> that raises does so
  in \<open>_set_memory_cache\<close>, before anything is written, and leaves the store as it was;
  \<open>get\<close> and \<open>delete\<close> that raise have dropped at most the memory entry of the key.
\<close>

fun after :: "'v cache_manager \<Rightarrow> 'v call \<Rightarrow> 'v cache_manager" where
  "after c (Get key use_memory now_mem now_disk unlink_ok) =
     (case get c key use_memory now_mem now_disk unlink_ok of
        Inr (r, c') \<Rightarrow> c' | Inl (e, c') \<Rightarrow> c')"
| "after c (Set key data persist now wr) =
     (case set_cache c key data persist now wr of
        Inr (ok, c') \<Rightarrow> c' | Inl e \<Rightarrow> c)"
| "after c (Delete key unlink_ok) =
     (case delete c key unlink_ok of
        Inr (ok, c') \<Rightarrow> c' | Inl (e, c') \<Rightarrow> c')"
| "after c (Clear_All unlink_ok) = snd (clear_all c unlink_ok)"

definition run :: "'v cache_manager \<Rightarrow> 'v call list \<Rightarrow> 'v cache_manager" where
  "run c calls = foldl after c calls"

fun call_keys :: "'v call \<Rightarrow> string list" where
  "call_keys (Get key use_memory now_mem now_disk unlink_ok) = [key]"
| "call_keys (Set key data persist now wr) = [key]"
| "call_keys (Delete key unlink_ok) = [key]"
| "call_keys (Clear_All unlink_ok) = []"

text \<open>
  The clock readings that become timestamps are those of \<open>set\<close>. A sequence of calls
  is chronological from \<open>T\<close> on when these readings never go back.
\<close>

fun chronological :: "int \<Rightarrow> 'v call list \<Rightarrow> bool" where
  "chronological T [] = True"
| "chronological T (Set key data persist now wr # calls) = (T \<le> now \<and> chronological now calls)"
| "chronological T (call # calls) = chronological T calls"

text \<open>No two different keys of the list share a file name.\<close>

definition collision_free :: "string list \<Rightarrow> bool" where
  "collision_free keys = distinct (map get_cache_path (remdups keys))"

text \<open>
  The freshness invariant: no key of the memory tier has an entry older than the record
  in the file of that key.
\<close>

definition memory_fresh :: "'v cache_manager \<Rightarrow> bool" where
  "memory_fresh c =
     list_all (\<lambda>k. case (map_of (memory_cache c) k, map_of (cache_dir c) (get_cache_path k)) of
                     (Some (v, t), Some (Pickled v' t')) \<Rightarrow> t' \<le> t
                   | _ \<Rightarrow> True)
       (map fst (memory_cache c))"

text \<open>No timestamp of the store, in memory or in a file, is later than \<open>T\<close>.\<close>

definition stamps_le :: "int \<Rightarrow> 'v cache_manager \<Rightarrow> bool" where
  "stamps_le T c =
     (list_all (\<lambda>e. snd (snd e) \<le> T) (memory_cache c) \<and>
      list_all (\<lambda>e. case snd e of Pickled v t \<Rightarrow> t \<le> T | Garbage \<Rightarrow> True) (cache_dir c))"

text \<open>
  The arguments of a call of \<open>set\<close> (key, data, persist, clock reading, outcome of the
  write), the call itself and the entry it puts into the memory tier.
\<close>

type_synonym 'v set_args = "string \<times> 'v \<times> bool \<times> int \<times> write_result"

fun set_call :: "'v set_args \<Rightarrow> 'v call" where
  "set_call (key, data, persist, now, wr) = Set key data persist now wr"

fun set_entry :: "'v set_args \<Rightarrow> string \<times> ('v \<times> int)" where
  "set_entry (key, data, persist, now, wr) = (key, (data, now))"

text \<open>
  What the file of the key holds after the call, \<open>old\<close> being what it held before.
\<close>

fun set_file :: "'v set_args \<Rightarrow> 'v content option \<Rightarrow> 'v content option" where
  "set_file (key, data, persist, now, wr) old =
     (if persist then
        (case wr of Written \<Rightarrow> Some (Pickled data now)
                  | Open_Fails \<Rightarrow> old
                  | Dump_Fails \<Rightarrow> Some Garbage)
      else old)"

text \<open>
  The invariant carried along a sequence of calls: the memory tier is fresh, no stored
  timestamp is later than the last clock reading \<open>T\<close>, and the keys of the memory tier
  are among the keys \<open>K\<close> in use.
\<close>

definition store_inv :: "string set \<Rightarrow> int \<Rightarrow> 'v cache_manager \<Rightarrow> bool" where
  "store_inv K T c = (memory_fresh c \<and> stamps_le T c \<and> fst ` set (memory_cache c) \<subseteq> K)"

section \<open>Facts about the memory tier\<close>

text \<open>
  Every store the program builds has capacity 50, which nothing changes afterwards; the
  theorems below ask for a positive capacity only.
\<close>

lemma init_store:
  "max_memory_items (init dir expiry_hours) = 50 \<and> memory_cache (init dir expiry_hours) = [] \<and>
   memory_fresh (init dir expiry_hours)"
  by (simp add: init_def memory_fresh_def)

lemma set_memory_cache_ok:
  assumes "0 < max_memory_items c"
  shows "\<exists>c'. set_memory_cache c key data ts = Inr c' \<and>
          map_of (memory_cache c') key = Some (data, ts) \<and>
          cache_dir c' = cache_dir c \<and> expiry_delta c' = expiry_delta c \<and>
          max_memory_items c' = max_memory_items c"
  using assms
  by (cases "memory_cache c") (auto simp: set_memory_cache_def oldest_key_def update_conv')

text \<open>
  Claim C1. Write-then-read: in each of the three caches, \<open>set(k, v)\<close> followed by
  \<open>get(k)\<close> while less than the expiry time has passed since the write returns \<open>v\<close>.
  For the final \<open>CacheManager\<close> this holds whatever \<open>persist\<close> is and whether or not
  the file write succeeds, since the value comes from the memory tier.
\<close>

theorem write_then_read:
  "(0 < max_memory_items c \<and> now' - now < expiry_delta c \<longrightarrow>
      (\<exists>ok c1 c2. set_cache c k v persist now wr = Inr (ok, c1) \<and>
            get c1 k True now' now'' unlink_ok = Inr (Some v, c2))) \<and>
   (now' - now < expiry_delta_b3 b \<longrightarrow>
      (\<exists>b2. get_b3 (snd (set_b3 b k v now wr)) k now' now'' unlink_ok = Inr (Some v, b2))) \<and>
   (t' - t < ttl_seconds d \<longrightarrow> fst (get_dc (set_dc d k v t) k t') = Some v)"
proof (intro conjI impI)
  assume a: "0 < max_memory_items c \<and> now' - now < expiry_delta c"
  then obtain c' where c': "set_memory_cache c k v now = Inr c'"
    "map_of (memory_cache c') k = Some (v, now)" "expiry_delta c' = expiry_delta c"
    using set_memory_cache_ok[of c k v now] by blast
  show "\<exists>ok c1 c2. set_cache c k v persist now wr = Inr (ok, c1) \<and>
            get c1 k True now' now'' unlink_ok = Inr (Some v, c2)"
    using c' a
    by (cases wr) (auto simp: set_cache_def get_def pickle_dump_def)
next
  assume "now' - now < expiry_delta_b3 b"
  then show "\<exists>b2. get_b3 (snd (set_b3 b k v now wr)) k now' now'' unlink_ok = Inr (Some v, b2)"
    by (cases wr) (auto simp: set_b3_def get_b3_def pickle_dump_def update_conv' Let_def)
next
  assume "t' - t < ttl_seconds d"
  then show "fst (get_dc (set_dc d k v t) k t') = Some v"
    by (auto simp: set_dc_def get_dc_def update_conv')
qed

theorem write_then_read_witness:
  "(\<exists>ok c1 c2.
      set_cache \<lparr>cache_dir = [], expiry_delta = 10, memory_cache = [], max_memory_items = 50\<rparr>
        ''k'' (42::nat) True 0 Written = Inr (ok, c1) \<and>
      get c1 ''k'' True 3 3 True = Inr (Some 42, c2)) \<and>
   (\<exists>b2. get_b3 (snd (set_b3 \<lparr>cache_dir_b3 = [], expiry_delta_b3 = 10, memory_cache_b3 = []\<rparr>
        ''k'' (42::nat) 0 Written)) ''k'' 3 3 True = Inr (Some 42, b2)) \<and>
   fst (get_dc (set_dc \<lparr>ttl_seconds = (10::int), store = []\<rparr> ''k'' (42::nat) 0) ''k'' 3) = Some 42"
  using write_then_read [of "\<lparr>cache_dir = [], expiry_delta = 10, memory_cache = [], max_memory_items = 50\<rparr>"
      3 0 "''k''" "42::nat" True Written 3 True
      "\<lparr>cache_dir_b3 = [], expiry_delta_b3 = 10, memory_cache_b3 = []\<rparr>"
      3 0 "\<lparr>ttl_seconds = (10::int), store = []\<rparr>"]
  by simp

lemma min_item_in: "min_item b xs \<in> set (b # xs)"
  by (induction xs arbitrary: b) auto

lemma min_item_le: "e \<in> set (b # xs) \<Longrightarrow> snd (snd (min_item b xs)) \<le> snd (snd e)"
proof (induction xs arbitrary: b e)
  case Nil
  then show ?case by simp
next
  case (Cons x xs)
  let ?b = "if snd (snd x) < snd (snd b) then x else b"
  have le_b: "snd (snd (min_item ?b xs)) \<le> snd (snd ?b)"
    using Cons.IH[of ?b ?b] by simp
  show ?case
  proof (cases "e \<in> set xs")
    case True
    then show ?thesis using Cons.IH[of e ?b] by simp
  next
    case False
    then have "e = b \<or> e = x" using Cons.prems by auto
    then show ?thesis using le_b by (auto split: if_splits)
  qed
qed

lemma oldest_key_props:
  assumes "oldest_key m = Inr ko"
  shows "\<exists>d t. (ko, (d, t)) \<in> set m \<and> (\<forall>e\<in>set m. t \<le> snd (snd e))"
proof (cases m)
  case Nil
  then show ?thesis using assms by (simp add: oldest_key_def)
next
  case (Cons x xs)
  then have ko: "ko = fst (min_item x xs)" using assms by (simp add: oldest_key_def)
  obtain d t where dt: "min_item x xs = (ko, (d, t))"
    using ko by (metis prod.collapse)
  have "(ko, (d, t)) \<in> set m" using min_item_in[of x xs] dt Cons by simp
  moreover have "\<forall>e\<in>set m. t \<le> snd (snd e)"
    using min_item_le[of _ x xs] dt Cons by auto
  ultimately show ?thesis by blast
qed

lemma oldest_key_nonempty: "m \<noteq> [] \<Longrightarrow> \<exists>ko. oldest_key m = Inr ko"
  by (cases m) (auto simp: oldest_key_def)

lemma length_alist_delete:
  "distinct (map fst m) \<Longrightarrow> k \<in> fst ` set m \<Longrightarrow> length (AList.delete k m) = length m - 1"
proof (induction m)
  case Nil
  then show ?case by simp
next
  case (Cons p m)
  show ?case
  proof (cases "fst p = k")
    case True
    then have "k \<notin> fst ` set m" using Cons.prems(1) by auto
    then show ?thesis using True by simp
  next
    case False
    then have "k \<in> fst ` set m" using Cons.prems(2) by auto
    moreover from this have "m \<noteq> []" by auto
    ultimately show ?thesis using Cons False by (cases m) auto
  qed
qed

lemma length_alist_update:
  "length (AList.update k v m) = (if k \<in> fst ` set m then length m else Suc (length m))"
  by (induction m) auto

lemma dom_alist_delete: "fst ` set (AList.delete k m) = fst ` set m - {k}"
  by (induction m) auto

section \<open>Key sanitization\<close>

lemma get_cache_path_map:
  "get_cache_path key =
     map (\<lambda>ch. if ch = CHR ''/'' \<or> ch = CHR 0x5C \<or> ch = CHR '':'' then CHR ''_'' else ch) key
       @ ''.pkl''"
  by (simp add: get_cache_path_def replace_def)

lemma get_cache_path_b3_map:
  "get_cache_path_b3 key =
     map (\<lambda>ch. if ch = CHR ''/'' \<or> ch = CHR 0x5C then CHR ''_'' else ch) key @ ''.pkl''"
  by (simp add: get_cache_path_b3_def replace_def)

text \<open>
  Claim C9, as amended. The file name is a function of the key alone. The final
  \<open>CacheManager\<close> replaces exactly the slash, the backslash and the colon by an
  underscore and appends \<open>.pkl\<close>, so none of the three occurs in the name; the Beta3
  \<open>CacheManager\<close> replaces the slash and the backslash only. Every other character is
  kept. Distinct keys can share a file name: \<open>a/b\<close> and \<open>a_b\<close> do in both.
\<close>

theorem key_sanitization:
  "get_cache_path key =
     map (\<lambda>ch. if ch = CHR ''/'' \<or> ch = CHR 0x5C \<or> ch = CHR '':'' then CHR ''_'' else ch) key
       @ ''.pkl'' \<and>
   CHR ''/'' \<notin> set (get_cache_path key) \<and> CHR 0x5C \<notin> set (get_cache_path key) \<and>
   CHR '':'' \<notin> set (get_cache_path key) \<and>
   get_cache_path_b3 key =
     map (\<lambda>ch. if ch = CHR ''/'' \<or> ch = CHR 0x5C then CHR ''_'' else ch) key @ ''.pkl'' \<and>
   CHR ''/'' \<notin> set (get_cache_path_b3 key) \<and> CHR 0x5C \<notin> set (get_cache_path_b3 key) \<and>
   ''a/b'' \<noteq> ''a_b'' \<and> get_cache_path ''a/b'' = get_cache_path ''a_b'' \<and>
   get_cache_path_b3 ''a/b'' = get_cache_path_b3 ''a_b''"
proof -
  have apex: "CHR ''/'' \<notin> set (get_cache_path key) \<and> CHR 0x5C \<notin> set (get_cache_path key) \<and>
              CHR '':'' \<notin> set (get_cache_path key)"
    unfolding get_cache_path_map by auto
  have b3: "CHR ''/'' \<notin> set (get_cache_path_b3 key) \<and> CHR 0x5C \<notin> set (get_cache_path_b3 key)"
    unfolding get_cache_path_b3_map by auto
  have collide: "''a/b'' \<noteq> ''a_b'' \<and> get_cache_path ''a/b'' = get_cache_path ''a_b'' \<and>
                 get_cache_path_b3 ''a/b'' = get_cache_path_b3 ''a_b''"
    by (simp add: get_cache_path_map get_cache_path_b3_map)
  show ?thesis
    using get_cache_path_map[of key] get_cache_path_b3_map[of key] apex b3 collide by blast
qed

text \<open>
  The claim as written, with colons among the replaced characters, fails for Beta3:
  the colon of \<open>a:b\<close> is still in the file name.
\<close>

theorem key_sanitization_counterexample:
  "get_cache_path_b3 ''a:b'' = ''a:b.pkl'' \<and> CHR '':'' \<in> set (get_cache_path_b3 ''a:b'')"
  by (simp add: get_cache_path_b3_def replace_def)

section \<open>Eviction when an existing key is refreshed\<close>

lemma set_cache_memory:
  assumes "set_memory_cache c key data now = Inr c1"
  shows "\<exists>ok c'. set_cache c key data persist now wr = Inr (ok, c') \<and>
           memory_cache c' = memory_cache c1 \<and> max_memory_items c' = max_memory_items c1 \<and>
           expiry_delta c' = expiry_delta c1"
  using assms by (cases wr) (auto simp: set_cache_def pickle_dump_def)

text \<open>
  Claim C10. In the final \<open>CacheManager\<close>, a \<open>set\<close> on a memory tier that holds at
  least \<open>max_memory_items\<close> entries first evicts the entry \<open>ko\<close> with the oldest
  timestamp, also when the key written is already in the tier. When \<open>ko\<close> is another
  key than the one written, \<open>ko\<close> is gone afterwards and the tier holds one key less.
\<close>

theorem eviction_on_refresh:
  assumes "max_memory_items c \<le> length (memory_cache c)"
    and "oldest_key (memory_cache c) = Inr ko"
    and "distinct (map fst (memory_cache c))"
    and "key \<in> fst ` set (memory_cache c)"
  shows "\<exists>ok c'. set_cache c key data persist now wr = Inr (ok, c') \<and>
           (\<exists>d t. map_of (memory_cache c) ko = Some (d, t) \<and>
                  (\<forall>e\<in>set (memory_cache c). t \<le> snd (snd e))) \<and>
           map_of (memory_cache c') key = Some (data, now) \<and>
           fst ` set (memory_cache c') = insert key (fst ` set (memory_cache c) - {ko}) \<and>
           (ko \<noteq> key \<longrightarrow>
              map_of (memory_cache c') ko = None \<and>
              fst ` set (memory_cache c') = fst ` set (memory_cache c) - {ko} \<and>
              length (memory_cache c') = length (memory_cache c) - 1)"
proof -
  let ?m = "memory_cache c"
  let ?m' = "AList.update key (data, now) (AList.delete ko ?m)"
  obtain d t where dt: "(ko, (d, t)) \<in> set ?m" "\<forall>e\<in>set ?m. t \<le> snd (snd e)"
    using oldest_key_props[OF assms(2)] by blast
  have ko_in: "ko \<in> fst ` set ?m" using dt(1) by force
  have smc: "set_memory_cache c key data now = Inr (c\<lparr>memory_cache := ?m'\<rparr>)"
    using assms(1,2) by (simp add: set_memory_cache_def)
  have 1: "map_of ?m ko = Some (d, t)" using dt(1) assms(3) by simp
  have 3: "map_of ?m' key = Some (data, now)" by (simp add: update_conv')
  have 4: "fst ` set ?m' = insert key (fst ` set ?m - {ko})"
    by (simp add: dom_update dom_alist_delete)
  have 5: "map_of ?m' ko = None \<and> fst ` set ?m' = fst ` set ?m - {ko} \<and>
           length ?m' = length ?m - 1" if ne: "ko \<noteq> key"
  proof -
    have key_in: "key \<in> fst ` set (AList.delete ko ?m)"
      using assms(4) ne by (simp add: dom_alist_delete)
    have "map_of ?m' ko = None" using ne by (simp add: update_conv' delete_conv')
    moreover have "fst ` set ?m' = fst ` set ?m - {ko}"
      using key_in by (auto simp: dom_update dom_alist_delete)
    moreover have "length ?m' = length ?m - 1"
      using key_in ko_in assms(3) by (simp add: length_alist_update length_alist_delete)
    ultimately show ?thesis by simp
  qed
  obtain ok c' where "set_cache c key data persist now wr = Inr (ok, c')"
    "memory_cache c' = ?m'"
    using set_cache_memory[OF smc, of persist wr] by auto
  then show ?thesis using 1 3 4 5 dt(2) by auto
qed

theorem eviction_on_refresh_witness:
  "\<exists>ok c'. set_cache \<lparr>cache_dir = [], expiry_delta = 10,
               memory_cache = [(''a'', (1::nat, 0)), (''b'', (2, 5))], max_memory_items = 2\<rparr>
             ''b'' 3 False 7 Written = Inr (ok, c') \<and>
           map_of (memory_cache c') ''a'' = None \<and>
           map_of (memory_cache c') ''b'' = Some (3, 7) \<and>
           fst ` set (memory_cache c') = {''b''} \<and>
           length (memory_cache c') = 1"
  using eviction_on_refresh [of "\<lparr>cache_dir = [], expiry_delta = 10,
               memory_cache = [(''a'', (1::nat, 0)), (''b'', (2, 5))], max_memory_items = 2\<rparr>"
             "''a''" "''b''" 3 False 7 Written]
  by (auto simp: oldest_key_def)

section \<open>Failed writes\<close>

text \<open>
  Claim C7, as amended. In the final \<open>CacheManager\<close>, \<open>set(k, v, persist = True)\<close> puts
  \<open>(v, now)\<close> into the memory tier and returns \<open>True\<close> exactly when the file write
  succeeded, \<open>False\<close> when it failed; the entry stays in memory either way and \<open>get(k)\<close>
  returns \<open>v\<close> while it is fresh. The Beta3 \<open>set\<close> keeps the memory entry in the same
  way, but returns nothing, whether the write succeeded or failed.
\<close>

theorem set_failure_keeps_memory:
  "(0 < max_memory_items c \<longrightarrow>
      (\<exists>c1. set_cache c k v True now wr = Inr (wr = Written, c1) \<and>
            map_of (memory_cache c1) k = Some (v, now) \<and>
            (now' - now < expiry_delta c \<longrightarrow>
               get c1 k True now' now'' unlink_ok = Inr (Some v, c1)))) \<and>
   (\<exists>b1. set_b3 b k v now wr = (None, b1) \<and>
         map_of (memory_cache_b3 b1) k = Some (v, now) \<and>
         (now' - now < expiry_delta_b3 b \<longrightarrow>
            get_b3 b1 k now' now'' unlink_ok = Inr (Some v, b1)))"
proof (intro conjI impI)
  assume "0 < max_memory_items c"
  then obtain c' where c': "set_memory_cache c k v now = Inr c'"
    "map_of (memory_cache c') k = Some (v, now)" "expiry_delta c' = expiry_delta c"
    using set_memory_cache_ok[of c k v now] by blast
  then show "\<exists>c1. set_cache c k v True now wr = Inr (wr = Written, c1) \<and>
            map_of (memory_cache c1) k = Some (v, now) \<and>
            (now' - now < expiry_delta c \<longrightarrow>
               get c1 k True now' now'' unlink_ok = Inr (Some v, c1))"
    by (cases wr) (auto simp: set_cache_def get_def pickle_dump_def)
next
  show "\<exists>b1. set_b3 b k v now wr = (None, b1) \<and>
         map_of (memory_cache_b3 b1) k = Some (v, now) \<and>
         (now' - now < expiry_delta_b3 b \<longrightarrow>
            get_b3 b1 k now' now'' unlink_ok = Inr (Some v, b1))"
    by (cases wr) (auto simp: set_b3_def get_b3_def pickle_dump_def update_conv' Let_def)
qed

theorem set_failure_keeps_memory_witness:
  "(\<exists>c1. set_cache \<lparr>cache_dir = [], expiry_delta = 10, memory_cache = [], max_memory_items = 50\<rparr>
           ''k'' (42::nat) True 0 Dump_Fails = Inr (False, c1) \<and>
         map_of (memory_cache c1) ''k'' = Some (42, 0) \<and>
         get c1 ''k'' True 3 3 True = Inr (Some 42, c1)) \<and>
   (\<exists>b1. set_b3 \<lparr>cache_dir_b3 = [], expiry_delta_b3 = 10, memory_cache_b3 = []\<rparr>
           ''k'' (42::nat) 0 Dump_Fails = (None, b1) \<and>
         map_of (memory_cache_b3 b1) ''k'' = Some (42, 0) \<and>
         get_b3 b1 ''k'' 3 3 True = Inr (Some 42, b1))"
  using set_failure_keeps_memory [of
      "\<lparr>cache_dir = [], expiry_delta = 10, memory_cache = [], max_memory_items = 50\<rparr>"
      "''k''" "42::nat" 0 Dump_Fails 3 3 True
      "\<lparr>cache_dir_b3 = [], expiry_delta_b3 = 10, memory_cache_b3 = []\<rparr>"]
  by simp

text \<open>
  The claim as written fails for Beta3: after a failed write its \<open>set\<close> returns
  \<open>None\<close>, not \<open>False\<close>, the same value as after a successful one.
\<close>

theorem set_failure_keeps_memory_counterexample:
  "fst (set_b3 \<lparr>cache_dir_b3 = [], expiry_delta_b3 = 10, memory_cache_b3 = []\<rparr>
          ''k'' (42::nat) 0 Open_Fails) \<noteq> Some False \<and>
   fst (set_b3 \<lparr>cache_dir_b3 = [], expiry_delta_b3 = 10, memory_cache_b3 = []\<rparr>
          ''k'' (42::nat) 0 Open_Fails) =
   fst (set_b3 \<lparr>cache_dir_b3 = [], expiry_delta_b3 = 10, memory_cache_b3 = []\<rparr>
          ''k'' (42::nat) 0 Written)"
  by (simp add: set_b3_def pickle_dump_def)

section \<open>Corrupt files and exceptions on the read path\<close>

lemma get_disk_present:
  "map_of (cache_dir c) (get_cache_path key) = Some f \<Longrightarrow>
   get_disk c key now unlink_ok =
     (case get_try c key f now unlink_ok of Inl e \<Rightarrow> Inr (None, c) | Inr r \<Rightarrow> Inr r)"
  by (simp add: get_disk_def path_exists_def)

lemma get_disk_absent:
  "map_of (cache_dir c) (get_cache_path key) = None \<Longrightarrow>
   get_disk c key now unlink_ok =
     (if name_max < length (get_cache_path key) then Inl (OSError, c) else Inr (None, c))"
  by (simp add: get_disk_def path_exists_def)

lemma get_disk_b3_present:
  "map_of (cache_dir_b3 c) (get_cache_path_b3 key) = Some f \<Longrightarrow>
   get_disk_b3 c key now unlink_ok =
     (case get_try_b3 c key f now unlink_ok of Inl e \<Rightarrow> Inr (None, c) | Inr r \<Rightarrow> Inr r)"
  by (simp add: get_disk_b3_def path_exists_def)

lemma get_disk_b3_absent:
  "map_of (cache_dir_b3 c) (get_cache_path_b3 key) = None \<Longrightarrow>
   get_disk_b3 c key now unlink_ok =
     (if name_max < length (get_cache_path_b3 key) then Inl (OSError, c) else Inr (None, c))"
  by (simp add: get_disk_b3_def path_exists_def)

lemma get_disk_garbage:
  "map_of (cache_dir c) (get_cache_path key) = Some Garbage \<Longrightarrow>
   get_disk c key now unlink_ok = Inr (None, c)"
  by (simp add: get_disk_present get_try_def pickle_load_def)

lemma get_disk_b3_garbage:
  "map_of (cache_dir_b3 c) (get_cache_path_b3 key) = Some Garbage \<Longrightarrow>
   get_disk_b3 c key now unlink_ok = Inr (None, c)"
  by (simp add: get_disk_b3_present get_try_b3_def pickle_load_def)

text \<open>
  The only exception that leaves the disk part of \<open>get\<close> is the one of
  \<open>cache_path.exists()\<close>, for a name that is too long and not in the directory.
\<close>

lemma get_disk_result:
  "(\<exists>r c'. get_disk c key now unlink_ok = Inr (r, c')) \<or>
   (get_disk c key now unlink_ok = Inl (OSError, c) \<and>
    map_of (cache_dir c) (get_cache_path key) = None \<and>
    name_max < length (get_cache_path key))"
proof (cases "map_of (cache_dir c) (get_cache_path key)")
  case None
  then show ?thesis by (simp add: get_disk_absent)
next
  case (Some f)
  show ?thesis
  proof (cases "get_try c key f now unlink_ok")
    case (Inl e)
    then show ?thesis using Some by (simp add: get_disk_present)
  next
    case (Inr r)
    obtain x c' where "r = (x, c')" by (cases r)
    then show ?thesis using Some Inr by (simp add: get_disk_present)
  qed
qed

lemma get_result:
  "(\<exists>r c'. get c key use_memory now_mem now_disk unlink_ok = Inr (r, c')) \<or>
   (\<exists>c0. get c key use_memory now_mem now_disk unlink_ok = Inl (OSError, c0) \<and>
      (c0 = c \<or> c0 = c\<lparr>memory_cache := AList.delete key (memory_cache c)\<rparr>) \<and>
      map_of (cache_dir c) (get_cache_path key) = None \<and>
      name_max < length (get_cache_path key))"
proof (cases "if use_memory then map_of (memory_cache c) key else None")
  case None
  then have "get c key use_memory now_mem now_disk unlink_ok = get_disk c key now_disk unlink_ok"
    by (simp add: get_def)
  then show ?thesis using get_disk_result[of c key now_disk unlink_ok] by auto
next
  case (Some e)
  obtain d t where e: "e = (d, t)" by (cases e)
  show ?thesis
  proof (cases "now_mem - t < expiry_delta c")
    case True
    then show ?thesis using Some e by (simp add: get_def)
  next
    case False
    let ?c0 = "c\<lparr>memory_cache := AList.delete key (memory_cache c)\<rparr>"
    have "get c key use_memory now_mem now_disk unlink_ok = get_disk ?c0 key now_disk unlink_ok"
      using Some e False by (simp add: get_def)
    then show ?thesis using get_disk_result[of ?c0 key now_disk unlink_ok] by auto
  qed
qed

text \<open>
  For a key whose file name is of legal length, or whose file is there, \<open>get\<close> returns
  a value or \<open>None\<close> whatever the storage layer does.
\<close>

lemma get_returns:
  assumes "length (get_cache_path key) \<le> name_max \<or>
           map_of (cache_dir c) (get_cache_path key) \<noteq> None"
  shows "\<exists>r c'. get c key use_memory now_mem now_disk unlink_ok = Inr (r, c')"
  using get_result[of c key use_memory now_mem now_disk unlink_ok] assms by auto

text \<open>
  With an unreadable file at the key's path and the key not in memory, \<open>get\<close> returns
  \<open>None\<close> and changes nothing; a following \<open>set\<close> whose write goes through replaces
  the file by the new record, and the value is then read back from disk.
\<close>

lemma corrupt_read_then_set:
  assumes "map_of (cache_dir c) (get_cache_path key) = Some Garbage"
    and "map_of (memory_cache c) key = None" and "0 < max_memory_items c"
  shows "get c key use_memory now_mem now_disk unlink_ok = Inr (None, c)"
    and "\<exists>c1. set_cache c key v True now Written = Inr (True, c1) \<and>
            map_of (cache_dir c1) (get_cache_path key) = Some (Pickled v now) \<and>
            (\<not> now' - now > expiry_delta c \<longrightarrow>
               (\<exists>c2. get c1 key False now'' now' unlink_ok' = Inr (Some v, c2)))"
proof -
  show "get c key use_memory now_mem now_disk unlink_ok = Inr (None, c)"
    using assms by (simp add: get_def get_disk_garbage)
  obtain c' where c': "set_memory_cache c key v now = Inr c'"
    "cache_dir c' = cache_dir c" "expiry_delta c' = expiry_delta c"
    "max_memory_items c' = max_memory_items c"
    using assms(3) set_memory_cache_ok[of c key v now] by blast
  let ?c1 = "c'\<lparr>cache_dir := AList.update (get_cache_path key) (Pickled v now) (cache_dir c')\<rparr>"
  have s: "set_cache c key v True now Written = Inr (True, ?c1)"
    using c' by (simp add: set_cache_def pickle_dump_def)
  have f: "map_of (cache_dir ?c1) (get_cache_path key) = Some (Pickled v now)"
    by (simp add: update_conv')
  have g: "\<exists>c2. get ?c1 key False now'' now' unlink_ok' = Inr (Some v, c2)"
    if "\<not> now' - now > expiry_delta c"
  proof -
    have "0 < max_memory_items ?c1" using assms(3) c' by simp
    then obtain c2 where "set_memory_cache ?c1 key v now = Inr c2"
      using set_memory_cache_ok[of ?c1 key v now] by blast
    then show ?thesis using that c' f
      by (simp add: get_def get_disk_present get_try_def pickle_load_def)
  qed
  show "\<exists>c1. set_cache c key v True now Written = Inr (True, c1) \<and>
            map_of (cache_dir c1) (get_cache_path key) = Some (Pickled v now) \<and>
            (\<not> now' - now > expiry_delta c \<longrightarrow>
               (\<exists>c2. get c1 key False now'' now' unlink_ok' = Inr (Some v, c2)))"
    using s f g by blast
qed

text \<open>
  Claim C3 at a key of 300 characters. Its file name has 304 bytes, more than
  \<open>NAME_MAX\<close>; the key is in neither tier. \<open>cache_path.exists()\<close> is called before the
  \<open>try\<close> and raises \<open>OSError\<close>, which leaves \<open>get\<close>: the call does not return
  \<open>None\<close>, in the final \<open>CacheManager\<close> and in Beta3 alike.
\<close>

theorem get_raises_on_long_key:
  "get \<lparr>cache_dir = ([] :: (string \<times> nat content) list), expiry_delta = 10, memory_cache = [],
        max_memory_items = 50\<rparr> (replicate 300 (CHR ''a'')) True 0 0 True
     = Inl (OSError, \<lparr>cache_dir = [], expiry_delta = 10, memory_cache = [],
                      max_memory_items = 50\<rparr>) \<and>
   get_b3 \<lparr>cache_dir_b3 = ([] :: (string \<times> nat content) list), expiry_delta_b3 = 10,
           memory_cache_b3 = []\<rparr> (replicate 300 (CHR ''a'')) 0 0 True
     = Inl (OSError, \<lparr>cache_dir_b3 = [], expiry_delta_b3 = 10, memory_cache_b3 = []\<rparr>)"
  by (simp add: get_def get_disk_def get_b3_def get_disk_b3_def path_exists_def name_max_def
      get_cache_path_def get_cache_path_b3_def replace_def)

text \<open>
  Claim C4, as amended. When the file at the key's path cannot be unpickled, \<open>get\<close>
  treats it as a miss: unless a fresh entry of the memory tier answers the call, the
  result is \<open>None\<close>. The \<open>except\<close> clause only prints: the directory is left as it
  was and the unreadable file is still there after the call, in both \<open>CacheManager\<close>s.
\<close>

theorem corrupt_file_is_a_miss:
  "(map_of (cache_dir c) (get_cache_path key) = Some Garbage \<longrightarrow>
      (\<exists>r c'. get c key use_memory now_mem now_disk unlink_ok = Inr (r, c') \<and>
         cache_dir c' = cache_dir c \<and>
         map_of (cache_dir c') (get_cache_path key) = Some Garbage \<and>
         (r \<noteq> None \<longrightarrow> use_memory \<and>
            (\<exists>t. map_of (memory_cache c) key = Some (the r, t) \<and>
                 now_mem - t < expiry_delta c)))) \<and>
   (map_of (cache_dir_b3 b) (get_cache_path_b3 key) = Some Garbage \<longrightarrow>
      (\<exists>r b'. get_b3 b key now_mem now_disk unlink_ok = Inr (r, b') \<and>
         cache_dir_b3 b' = cache_dir_b3 b \<and>
         map_of (cache_dir_b3 b') (get_cache_path_b3 key) = Some Garbage \<and>
         (r \<noteq> None \<longrightarrow>
            (\<exists>t. map_of (memory_cache_b3 b) key = Some (the r, t) \<and>
                 now_mem - t < expiry_delta_b3 b))))"
proof (intro conjI impI)
  assume g: "map_of (cache_dir c) (get_cache_path key) = Some Garbage"
  show "\<exists>r c'. get c key use_memory now_mem now_disk unlink_ok = Inr (r, c') \<and>
         cache_dir c' = cache_dir c \<and>
         map_of (cache_dir c') (get_cache_path key) = Some Garbage \<and>
         (r \<noteq> None \<longrightarrow> use_memory \<and>
            (\<exists>t. map_of (memory_cache c) key = Some (the r, t) \<and>
                 now_mem - t < expiry_delta c))"
  proof (cases "if use_memory then map_of (memory_cache c) key else None")
    case None
    then show ?thesis using g by (simp add: get_def get_disk_garbage)
  next
    case (Some e)
    obtain d t where e: "e = (d, t)" by (cases e)
    have um: use_memory and m: "map_of (memory_cache c) key = Some (d, t)"
      using Some e by (auto split: if_splits)
    show ?thesis
    proof (cases "now_mem - t < expiry_delta c")
      case True
      then show ?thesis using um m g by (simp add: get_def)
    next
      case False
      let ?c = "c\<lparr>memory_cache := AList.delete key (memory_cache c)\<rparr>"
      have "get_disk ?c key now_disk unlink_ok = Inr (None, ?c)"
        using g by (simp add: get_disk_garbage)
      then show ?thesis using um m g False by (simp add: get_def)
    qed
  qed
next
  assume g: "map_of (cache_dir_b3 b) (get_cache_path_b3 key) = Some Garbage"
  show "\<exists>r b'. get_b3 b key now_mem now_disk unlink_ok = Inr (r, b') \<and>
         cache_dir_b3 b' = cache_dir_b3 b \<and>
         map_of (cache_dir_b3 b') (get_cache_path_b3 key) = Some Garbage \<and>
         (r \<noteq> None \<longrightarrow>
            (\<exists>t. map_of (memory_cache_b3 b) key = Some (the r, t) \<and>
                 now_mem - t < expiry_delta_b3 b))"
  proof (cases "map_of (memory_cache_b3 b) key")
    case None
    then show ?thesis using g by (simp add: get_b3_def get_disk_b3_garbage)
  next
    case (Some e)
    obtain d t where e: "e = (d, t)" by (cases e)
    show ?thesis
    proof (cases "now_mem - t < expiry_delta_b3 b")
      case True
      then show ?thesis using Some e g by (simp add: get_b3_def)
    next
      case False
      let ?b = "b\<lparr>memory_cache_b3 := AList.delete key (memory_cache_b3 b)\<rparr>"
      have "get_disk_b3 ?b key now_disk unlink_ok = Inr (None, ?b)"
        using g by (simp add: get_disk_b3_garbage)
      then show ?thesis using Some e g False by (simp add: get_b3_def)
    qed
  qed
qed

theorem corrupt_file_is_a_miss_witness:
  "(\<exists>r c'. get \<lparr>cache_dir = [(''k.pkl'', Garbage :: nat content)], expiry_delta = 10,
                memory_cache = [(''k'', (5, 0))], max_memory_items = 50\<rparr>
              ''k'' True 20 20 True = Inr (r, c') \<and>
         cache_dir c' = [(''k.pkl'', Garbage)] \<and> r = None) \<and>
   (\<exists>r b'. get_b3 \<lparr>cache_dir_b3 = [(''k.pkl'', Garbage :: nat content)], expiry_delta_b3 = 10,
                memory_cache_b3 = [(''k'', (5, 0))]\<rparr>
              ''k'' 20 20 True = Inr (r, b') \<and>
         cache_dir_b3 b' = [(''k.pkl'', Garbage)] \<and> r = None)"
  using corrupt_file_is_a_miss [of
      "\<lparr>cache_dir = [(''k.pkl'', Garbage :: nat content)], expiry_delta = 10,
                memory_cache = [(''k'', (5, 0))], max_memory_items = 50\<rparr>" "''k''"
      True 20 20 True
      "\<lparr>cache_dir_b3 = [(''k.pkl'', Garbage :: nat content)], expiry_delta_b3 = 10,
                memory_cache_b3 = [(''k'', (5, 0))]\<rparr>"]
  by (auto simp: get_cache_path_def get_cache_path_b3_def replace_def)

text \<open>
  The claim as written fails: after \<open>get\<close> has met the unreadable file \<open>k.pkl\<close>, the
  file is still in the directory, in the final version and in Beta3.
\<close>

theorem corrupt_file_is_a_miss_counterexample:
  "get \<lparr>cache_dir = [(''k.pkl'', Garbage :: nat content)], expiry_delta = 10,
        memory_cache = [], max_memory_items = 50\<rparr> ''k'' True 0 0 True
     = Inr (None, \<lparr>cache_dir = [(''k.pkl'', Garbage)], expiry_delta = 10,
                   memory_cache = [], max_memory_items = 50\<rparr>) \<and>
   get_b3 \<lparr>cache_dir_b3 = [(''k.pkl'', Garbage :: nat content)], expiry_delta_b3 = 10,
           memory_cache_b3 = []\<rparr> ''k'' 0 0 True
     = Inr (None, \<lparr>cache_dir_b3 = [(''k.pkl'', Garbage)], expiry_delta_b3 = 10,
                   memory_cache_b3 = []\<rparr>)"
  by (simp add: get_def get_disk_def get_try_def get_b3_def get_disk_b3_def get_try_b3_def
      path_exists_def pickle_load_def get_cache_path_def get_cache_path_b3_def replace_def)

section \<open>The boundary of the expiry test\<close>

text \<open>
  Claim C2 at its boundary. With \<open>expiry_delta = 10\<close>, a value written at time 0 is in
  both tiers. At time 10 its age equals the expiry time: the memory tier drops the entry
  (\<open>10 - 0 < 10\<close> is false), but the test of the file is \<open>10 - 0 > 10\<close>, false as
  well, so the file is not deleted, the record is promoted again and \<open>get\<close> returns
  42. The same holds when only the file exists, and in Beta3.
\<close>

theorem expiry_boundary:
  "set_cache \<lparr>cache_dir = [], expiry_delta = 10, memory_cache = [], max_memory_items = 50\<rparr>
      ''k'' (42::nat) True 0 Written
     = Inr (True, \<lparr>cache_dir = [(''k.pkl'', Pickled 42 0)], expiry_delta = 10,
                   memory_cache = [(''k'', (42, 0))], max_memory_items = 50\<rparr>) \<and>
   get \<lparr>cache_dir = [(''k.pkl'', Pickled 42 0)], expiry_delta = 10,
        memory_cache = [(''k'', (42::nat, 0))], max_memory_items = 50\<rparr> ''k'' True 10 10 True
     = Inr (Some 42, \<lparr>cache_dir = [(''k.pkl'', Pickled 42 0)], expiry_delta = 10,
                      memory_cache = [(''k'', (42, 0))], max_memory_items = 50\<rparr>) \<and>
   get \<lparr>cache_dir = [(''k.pkl'', Pickled 42 0)], expiry_delta = 10,
        memory_cache = [], max_memory_items = 50\<rparr> ''k'' True 10 10 True
     = Inr (Some (42::nat), \<lparr>cache_dir = [(''k.pkl'', Pickled 42 0)], expiry_delta = 10,
                      memory_cache = [(''k'', (42, 0))], max_memory_items = 50\<rparr>) \<and>
   get_b3 \<lparr>cache_dir_b3 = [(''k.pkl'', Pickled 42 0)], expiry_delta_b3 = 10,
           memory_cache_b3 = []\<rparr> ''k'' 10 10 True
     = Inr (Some (42::nat), \<lparr>cache_dir_b3 = [(''k.pkl'', Pickled 42 0)], expiry_delta_b3 = 10,
                      memory_cache_b3 = [(''k'', (42, 0))]\<rparr>)"
  by (simp add: set_cache_def set_memory_cache_def pickle_dump_def
      get_def get_disk_def get_try_def get_b3_def get_disk_b3_def get_try_b3_def
      path_exists_def pickle_load_def get_cache_path_def get_cache_path_b3_def replace_def)

text \<open>
  Past the boundary the claim holds: a record strictly older than the expiry time is
  deleted (when the operating system lets \<open>unlink\<close> succeed) and \<open>get\<close> returns
  \<open>None\<close>, whether or not the memory tier still held the entry.
\<close>

lemma get_disk_expired:
  assumes "map_of (cache_dir c) (get_cache_path key) = Some (Pickled d t)"
    and "now - t > expiry_delta c"
  shows "get_disk c key now unlink_ok =
           Inr (None, if unlink_ok then c\<lparr>cache_dir := AList.delete (get_cache_path key) (cache_dir c)\<rparr>
                      else c)"
  using assms by (simp add: get_disk_present get_try_def pickle_load_def unlink_def)

lemma get_after_expiry:
  assumes "map_of (cache_dir c) (get_cache_path key) = Some (Pickled d t)"
    and "now_disk - t > expiry_delta c"
    and "\<forall>d' t'. map_of (memory_cache c) key = Some (d', t') \<longrightarrow> now_mem - t' > expiry_delta c"
  shows "\<exists>c'. get c key use_memory now_mem now_disk unlink_ok = Inr (None, c') \<and>
           (unlink_ok \<longrightarrow> map_of (cache_dir c') (get_cache_path key) = None)"
  using assms
  by (auto simp: get_def get_disk_expired delete_conv' split: option.splits)

section \<open>Clearing the cache\<close>

lemma is_pkl_get_cache_path: "is_pkl (get_cache_path key)"
  by (simp add: is_pkl_def get_cache_path_def)

lemma is_pkl_get_cache_path_b3: "is_pkl (get_cache_path_b3 key)"
  by (simp add: is_pkl_def get_cache_path_b3_def)

lemma map_of_filter_None: "\<not> P p \<Longrightarrow> map_of (filter (\<lambda>e. P (fst e)) dir) p = None"
  by (induction dir) auto

lemma clear_files_result:
  assumes "distinct names" and "set names \<subseteq> fst ` set dir"
  shows "clear_files unlink_ok names (n, dir) =
           (n + length (filter unlink_ok names),
            filter (\<lambda>e. \<not> (fst e \<in> set names \<and> unlink_ok (fst e))) dir)"
  using assms
proof (induction names arbitrary: n dir)
  case Nil
  then show ?case by simp
next
  case (Cons f rest)
  have f_in: "map_of dir f \<noteq> None"
    using Cons.prems(2) by (simp add: map_of_eq_None_iff)
  show ?case
  proof (cases "unlink_ok f")
    case True
    let ?dir1 = "AList.delete f dir"
    have sub: "set rest \<subseteq> fst ` set ?dir1"
      using Cons.prems by (auto simp: dom_alist_delete)
    have "clear_files unlink_ok (f # rest) (n, dir) = clear_files unlink_ok rest (n + 1, ?dir1)"
      using True f_in by (simp add: unlink_def)
    also have "\<dots> = (n + 1 + length (filter unlink_ok rest),
        filter (\<lambda>e. \<not> (fst e \<in> set rest \<and> unlink_ok (fst e))) ?dir1)"
      using Cons.IH[OF _ sub] Cons.prems(1) by simp
    also have "filter (\<lambda>e. \<not> (fst e \<in> set rest \<and> unlink_ok (fst e))) ?dir1 =
        filter (\<lambda>e. \<not> (fst e \<in> set (f # rest) \<and> unlink_ok (fst e))) dir"
      using True by (auto simp: AList.delete_eq intro: filter_cong)
    finally show ?thesis using True by simp
  next
    case False
    have sub: "set rest \<subseteq> fst ` set dir" using Cons.prems(2) by simp
    have "clear_files unlink_ok (f # rest) (n, dir) = clear_files unlink_ok rest (n, dir)"
      using False by (simp add: unlink_def)
    also have "\<dots> = (n + length (filter unlink_ok rest),
        filter (\<lambda>e. \<not> (fst e \<in> set rest \<and> unlink_ok (fst e))) dir)"
      using Cons.IH[OF _ sub] Cons.prems(1) by simp
    also have "filter (\<lambda>e. \<not> (fst e \<in> set rest \<and> unlink_ok (fst e))) dir =
        filter (\<lambda>e. \<not> (fst e \<in> set (f # rest) \<and> unlink_ok (fst e))) dir"
      using False by (auto intro: filter_cong)
    finally show ?thesis using False by simp
  qed
qed

lemma clear_files_b3_eq: "clear_files_b3 unlink_ok names dir = snd (clear_files unlink_ok names (n, dir))"
  by (induction names arbitrary: n dir) (auto split: sum.splits)

lemma glob_pkl_distinct: "distinct (map fst dir) \<Longrightarrow> distinct (glob_pkl dir)"
  by (simp add: glob_pkl_def)

lemma glob_pkl_subset: "set (glob_pkl dir) \<subseteq> fst ` set dir"
  by (auto simp: glob_pkl_def)

lemma clear_glob:
  assumes "distinct (map fst dir)"
  shows "clear_files unlink_ok (glob_pkl dir) (0, dir) =
           (length (filter (\<lambda>e. is_pkl (fst e) \<and> unlink_ok (fst e)) dir),
            filter (\<lambda>e. \<not> (is_pkl (fst e) \<and> unlink_ok (fst e))) dir)"
proof -
  have 1: "length (filter unlink_ok (glob_pkl dir)) =
           length (filter (\<lambda>e. is_pkl (fst e) \<and> unlink_ok (fst e)) dir)"
    by (induction dir) (auto simp: glob_pkl_def)
  have 2: "filter (\<lambda>e. \<not> (fst e \<in> set (glob_pkl dir) \<and> unlink_ok (fst e))) dir =
           filter (\<lambda>e. \<not> (is_pkl (fst e) \<and> unlink_ok (fst e))) dir"
    by (rule filter_cong) (auto simp: glob_pkl_def)
  show ?thesis
    using clear_files_result[OF glob_pkl_distinct[OF assms] glob_pkl_subset, of unlink_ok 0] 1 2
    by simp
qed

lemma count_plus_rest:
  "length (filter (\<lambda>e. P e) dir) + length (filter (\<lambda>e. \<not> P e) dir) = length dir"
  by (induction dir) auto

text \<open>
  Claim C6, as amended. In the final \<open>CacheManager\<close>, \<open>clear_all\<close> empties the memory
  tier and unlinks every \<open>.pkl\<close> file of the directory; a file whose \<open>unlink\<close> raises is
  skipped and stays. The number returned is the number of files removed, which is 0 for
  an empty directory. When every \<open>unlink\<close> succeeds, no \<open>.pkl\<close> file is left, the number
  returned is the number of \<open>.pkl\<close> files there were, and every later \<open>get\<close> of a key
  whose file name is of legal length returns \<open>None\<close>. The Beta3 \<open>clear_all\<close> has
  the same effect on the store and returns nothing.
\<close>

theorem clear_all_contract:
  "(distinct (map fst (cache_dir c)) \<longrightarrow>
      (\<exists>n c'. clear_all c unlink_ok = (n, c') \<and>
         memory_cache c' = [] \<and>
         cache_dir c' = filter (\<lambda>e. \<not> (is_pkl (fst e) \<and> unlink_ok (fst e))) (cache_dir c) \<and>
         n + length (cache_dir c') = length (cache_dir c) \<and>
         (cache_dir c = [] \<longrightarrow> n = 0) \<and>
         ((\<forall>f. unlink_ok f) \<longrightarrow>
            glob_pkl (cache_dir c') = [] \<and> n = length (glob_pkl (cache_dir c)) \<and>
            (length (get_cache_path key) \<le> name_max \<longrightarrow>
               get c' key use_memory now_mem now_disk ok = Inr (None, c'))))) \<and>
   (distinct (map fst (cache_dir_b3 b)) \<longrightarrow>
      (\<exists>b'. clear_all_b3 b unlink_ok = (None, b') \<and>
         memory_cache_b3 b' = [] \<and>
         cache_dir_b3 b' =
           filter (\<lambda>e. \<not> (is_pkl (fst e) \<and> unlink_ok (fst e))) (cache_dir_b3 b) \<and>
         ((\<forall>f. unlink_ok f) \<longrightarrow>
            glob_pkl (cache_dir_b3 b') = [] \<and>
            (length (get_cache_path_b3 key) \<le> name_max \<longrightarrow>
               get_b3 b' key now_mem now_disk ok = Inr (None, b')))))"
proof (intro conjI impI)
  assume d: "distinct (map fst (cache_dir c))"
  let ?dir' = "filter (\<lambda>e. \<not> (is_pkl (fst e) \<and> unlink_ok (fst e))) (cache_dir c)"
  let ?n = "length (filter (\<lambda>e. is_pkl (fst e) \<and> unlink_ok (fst e)) (cache_dir c))"
  let ?c' = "c\<lparr>memory_cache := [], cache_dir := ?dir'\<rparr>"
  have ca: "clear_all c unlink_ok = (?n, ?c')"
    using clear_glob[OF d, of unlink_ok] by (simp add: clear_all_def)
  have cnt: "?n + length ?dir' = length (cache_dir c)"
    by (rule count_plus_rest)
  have all: "glob_pkl ?dir' = [] \<and> ?n = length (glob_pkl (cache_dir c)) \<and>
             (length (get_cache_path key) \<le> name_max \<longrightarrow>
                get ?c' key use_memory now_mem now_disk ok = Inr (None, ?c'))"
    if u: "\<forall>f. unlink_ok f"
  proof -
    have 1: "glob_pkl ?dir' = []" using u by (simp add: glob_pkl_def filter_empty_conv)
    have 2: "?n = length (glob_pkl (cache_dir c))"
      using u by (simp add: glob_pkl_def comp_def)
    have "map_of ?dir' (get_cache_path key) = None"
      using u map_of_filter_None[of "\<lambda>p. \<not> is_pkl p" "get_cache_path key" "cache_dir c"]
      by (simp add: is_pkl_get_cache_path)
    then have 3: "length (get_cache_path key) \<le> name_max \<longrightarrow>
                  get ?c' key use_memory now_mem now_disk ok = Inr (None, ?c')"
      by (simp add: get_def get_disk_absent)
    show ?thesis using 1 2 3 by simp
  qed
  show "\<exists>n c'. clear_all c unlink_ok = (n, c') \<and>
         memory_cache c' = [] \<and>
         cache_dir c' = filter (\<lambda>e. \<not> (is_pkl (fst e) \<and> unlink_ok (fst e))) (cache_dir c) \<and>
         n + length (cache_dir c') = length (cache_dir c) \<and>
         (cache_dir c = [] \<longrightarrow> n = 0) \<and>
         ((\<forall>f. unlink_ok f) \<longrightarrow>
            glob_pkl (cache_dir c') = [] \<and> n = length (glob_pkl (cache_dir c)) \<and>
            (length (get_cache_path key) \<le> name_max \<longrightarrow>
               get c' key use_memory now_mem now_disk ok = Inr (None, c')))"
    using ca cnt all by (intro exI[of _ ?n] exI[of _ ?c']) auto
next
  assume d: "distinct (map fst (cache_dir_b3 b))"
  let ?dir' = "filter (\<lambda>e. \<not> (is_pkl (fst e) \<and> unlink_ok (fst e))) (cache_dir_b3 b)"
  let ?b' = "b\<lparr>memory_cache_b3 := [], cache_dir_b3 := ?dir'\<rparr>"
  have "clear_files_b3 unlink_ok (glob_pkl (cache_dir_b3 b)) (cache_dir_b3 b) = ?dir'"
    using clear_glob[OF d, of unlink_ok]
      clear_files_b3_eq[of unlink_ok "glob_pkl (cache_dir_b3 b)" "cache_dir_b3 b" 0]
    by simp
  then have ca: "clear_all_b3 b unlink_ok = (None, ?b')"
    by (simp add: clear_all_b3_def)
  have all: "glob_pkl ?dir' = [] \<and>
             (length (get_cache_path_b3 key) \<le> name_max \<longrightarrow>
                get_b3 ?b' key now_mem now_disk ok = Inr (None, ?b'))"
    if u: "\<forall>f. unlink_ok f"
  proof -
    have 1: "glob_pkl ?dir' = []" using u by (simp add: glob_pkl_def filter_empty_conv)
    have "map_of ?dir' (get_cache_path_b3 key) = None"
      using u map_of_filter_None[of "\<lambda>p. \<not> is_pkl p" "get_cache_path_b3 key" "cache_dir_b3 b"]
      by (simp add: is_pkl_get_cache_path_b3)
    then have "length (get_cache_path_b3 key) \<le> name_max \<longrightarrow>
               get_b3 ?b' key now_mem now_disk ok = Inr (None, ?b')"
      by (simp add: get_b3_def get_disk_b3_absent)
    then show ?thesis using 1 by simp
  qed
  show "\<exists>b'. clear_all_b3 b unlink_ok = (None, b') \<and>
         memory_cache_b3 b' = [] \<and>
         cache_dir_b3 b' =
           filter (\<lambda>e. \<not> (is_pkl (fst e) \<and> unlink_ok (fst e))) (cache_dir_b3 b) \<and>
         ((\<forall>f. unlink_ok f) \<longrightarrow>
            glob_pkl (cache_dir_b3 b') = [] \<and>
            (length (get_cache_path_b3 key) \<le> name_max \<longrightarrow>
               get_b3 b' key now_mem now_disk ok = Inr (None, b')))"
    using ca all by (intro exI[of _ ?b']) auto
qed

theorem clear_all_contract_witness:
  "(\<exists>c'. clear_all \<lparr>cache_dir = [(''a.pkl'', Pickled (1::nat) 0), (''notes.txt'', Garbage),
                        (''b.pkl'', Garbage)],
                      expiry_delta = 10, memory_cache = [(''a'', (1, 0)), (''c'', (3, 2))],
                      max_memory_items = 50\<rparr> (\<lambda>f. True) = (2, c') \<and>
         memory_cache c' = [] \<and> cache_dir c' = [(''notes.txt'', Garbage)] \<and>
         get c' ''a'' True 1 1 True = Inr (None, c')) \<and>
   (\<exists>b'. clear_all_b3 \<lparr>cache_dir_b3 = [(''a.pkl'', Pickled (1::nat) 0), (''notes.txt'', Garbage),
                        (''b.pkl'', Garbage)],
                      expiry_delta_b3 = 10, memory_cache_b3 = [(''a'', (1, 0)), (''c'', (3, 2))]\<rparr>
              (\<lambda>f. True) = (None, b') \<and>
         memory_cache_b3 b' = [] \<and> cache_dir_b3 b' = [(''notes.txt'', Garbage)] \<and>
         get_b3 b' ''a'' 1 1 True = Inr (None, b'))"
  using clear_all_contract [of
      "\<lparr>cache_dir = [(''a.pkl'', Pickled (1::nat) 0), (''notes.txt'', Garbage),
                        (''b.pkl'', Garbage)],
                      expiry_delta = 10, memory_cache = [(''a'', (1, 0)), (''c'', (3, 2))],
                      max_memory_items = 50\<rparr>" "\<lambda>f. True" "''a''" True 1 1 True
      "\<lparr>cache_dir_b3 = [(''a.pkl'', Pickled (1::nat) 0), (''notes.txt'', Garbage),
                        (''b.pkl'', Garbage)],
                      expiry_delta_b3 = 10, memory_cache_b3 = [(''a'', (1, 0)), (''c'', (3, 2))]\<rparr>"]
  by (auto simp: is_pkl_def glob_pkl_def get_cache_path_def get_cache_path_b3_def replace_def
      name_max_def)

text \<open>
  The claim as written fails in two ways. On an empty store the Beta3 \<open>clear_all\<close>
  returns \<open>None\<close>, not 0. And in the final version a file whose \<open>unlink\<close> raises is
  not removed: \<open>clear_all\<close> returns 0, the file \<open>k.pkl\<close> stays, and the next \<open>get\<close>
  of its key returns the value.
\<close>

theorem clear_all_contract_counterexample:
  "fst (clear_all_b3 \<lparr>cache_dir_b3 = ([] :: (string \<times> nat content) list), expiry_delta_b3 = 10,
                       memory_cache_b3 = []\<rparr> (\<lambda>f. True)) \<noteq> Some 0 \<and>
   clear_all \<lparr>cache_dir = [(''k.pkl'', Pickled (1::nat) 0)], expiry_delta = 10,
               memory_cache = [(''k'', (1, 0))], max_memory_items = 50\<rparr> (\<lambda>f. False)
     = (0, \<lparr>cache_dir = [(''k.pkl'', Pickled 1 0)], expiry_delta = 10,
             memory_cache = [], max_memory_items = 50\<rparr>) \<and>
   get \<lparr>cache_dir = [(''k.pkl'', Pickled (1::nat) 0)], expiry_delta = 10,
         memory_cache = [], max_memory_items = 50\<rparr> ''k'' True 1 1 True
     = Inr (Some 1, \<lparr>cache_dir = [(''k.pkl'', Pickled 1 0)], expiry_delta = 10,
                     memory_cache = [(''k'', (1, 0))], max_memory_items = 50\<rparr>)"
  by (simp add: clear_all_b3_def clear_all_def glob_pkl_def is_pkl_def unlink_def
      get_def get_disk_def get_try_def path_exists_def pickle_load_def set_memory_cache_def
      get_cache_path_def replace_def)

section \<open>The effect of each operation on the two tiers\<close>

lemma set_memory_cache_frame:
  assumes "set_memory_cache c key data ts = Inr c'"
  shows "cache_dir c' = cache_dir c \<and> max_memory_items c' = max_memory_items c \<and>
         expiry_delta c' = expiry_delta c"
  using assms by (auto simp: set_memory_cache_def split: if_splits sum.splits)

lemma set_memory_cache_cases:
  assumes "set_memory_cache c key data ts = Inr c'"
  shows "(length (memory_cache c) < max_memory_items c \<and>
          memory_cache c' = AList.update key (data, ts) (memory_cache c)) \<or>
         (max_memory_items c \<le> length (memory_cache c) \<and>
          (\<exists>ko. oldest_key (memory_cache c) = Inr ko \<and>
             memory_cache c' = AList.update key (data, ts) (AList.delete ko (memory_cache c))))"
  using assms by (auto simp: set_memory_cache_def split: if_splits sum.splits)

lemma length_alist_delete_less:
  "k \<in> fst ` set m \<Longrightarrow> length (AList.delete k m) < length m"
proof (induction m)
  case Nil
  then show ?case by simp
next
  case (Cons p m)
  show ?case
  proof (cases "fst p = k")
    case True
    then show ?thesis using length_delete_le[of k m] by simp
  next
    case False
    then show ?thesis using Cons by auto
  qed
qed

lemma oldest_key_in: "oldest_key m = Inr ko \<Longrightarrow> ko \<in> fst ` set m"
  using oldest_key_props[of m ko] by force

lemma set_memory_cache_bound:
  assumes "set_memory_cache c key data ts = Inr c'"
    and "length (memory_cache c) \<le> max_memory_items c"
  shows "length (memory_cache c') \<le> max_memory_items c"
proof (cases "length (memory_cache c) < max_memory_items c")
  case True
  then have "memory_cache c' = AList.update key (data, ts) (memory_cache c)"
    using assms(1) by (auto simp: set_memory_cache_def)
  then show ?thesis using True by (simp add: length_alist_update)
next
  case False
  then obtain ko where ko: "oldest_key (memory_cache c) = Inr ko"
    and m': "memory_cache c' = AList.update key (data, ts) (AList.delete ko (memory_cache c))"
    using set_memory_cache_cases[OF assms(1)] by auto
  have "ko \<in> fst ` set (memory_cache c)" using ko by (rule oldest_key_in)
  then have "length (AList.delete ko (memory_cache c)) < length (memory_cache c)"
    by (rule length_alist_delete_less)
  then show ?thesis using m' assms(2) by (simp add: length_alist_update)
qed

lemma get_disk_effect:
  assumes "get_disk c key now unlink_ok = Inr (r, c')"
  shows "(r = None \<and> c' = c) \<or>
         (r = None \<and> c' = c\<lparr>cache_dir := AList.delete (get_cache_path key) (cache_dir c)\<rparr>) \<or>
         (\<exists>d t. map_of (cache_dir c) (get_cache_path key) = Some (Pickled d t) \<and>
                \<not> expiry_delta c < now - t \<and> set_memory_cache c key d t = Inr c' \<and> r = Some d)"
proof (cases "map_of (cache_dir c) (get_cache_path key)")
  case None
  then show ?thesis using assms by (simp add: get_disk_absent split: if_splits)
next
  case (Some f)
  show ?thesis
  proof (cases f)
    case Garbage
    then show ?thesis using assms Some by (simp add: get_disk_garbage)
  next
    case (Pickled d t)
    show ?thesis
    proof (cases "expiry_delta c < now - t")
      case True
      then have "get_disk c key now unlink_ok =
          Inr (None, if unlink_ok
                     then c\<lparr>cache_dir := AList.delete (get_cache_path key) (cache_dir c)\<rparr>
                     else c)"
        using Some Pickled by (simp add: get_disk_expired)
      then show ?thesis using assms by (cases unlink_ok) simp_all
    next
      case False
      show ?thesis
      proof (cases "set_memory_cache c key d t")
        case (Inl e)
        then have "get_disk c key now unlink_ok = Inr (None, c)"
          using Some Pickled False by (simp add: get_disk_present get_try_def pickle_load_def)
        then show ?thesis using assms by simp
      next
        case (Inr c1)
        then have "get_disk c key now unlink_ok = Inr (Some d, c1)"
          using Some Pickled False by (simp add: get_disk_present get_try_def pickle_load_def)
        then show ?thesis using assms Some Pickled False Inr by simp
      qed
    qed
  qed
qed

lemma get_effect:
  assumes "get c key use_memory now_mem now_disk unlink_ok = Inr (r, c')"
  shows "c' = c \<or>
         (\<exists>c0. (c0 = c \<or> c0 = c\<lparr>memory_cache := AList.delete key (memory_cache c)\<rparr>) \<and>
               get_disk c0 key now_disk unlink_ok = Inr (r, c'))"
proof (cases "if use_memory then map_of (memory_cache c) key else None")
  case None
  then have "get_disk c key now_disk unlink_ok = Inr (r, c')"
    using assms by (simp add: get_def)
  then show ?thesis by blast
next
  case (Some e)
  obtain d t where e: "e = (d, t)" by (cases e)
  show ?thesis
  proof (cases "now_mem - t < expiry_delta c")
    case True
    then have "c' = c" using assms Some e by (simp add: get_def)
    then show ?thesis by simp
  next
    case False
    then have "get_disk (c\<lparr>memory_cache := AList.delete key (memory_cache c)\<rparr>)
                 key now_disk unlink_ok = Inr (r, c')"
      using assms Some e by (simp add: get_def)
    then show ?thesis by blast
  qed
qed

lemma set_cache_effect:
  assumes "set_cache c key data persist now wr = Inr (ok, c')"
  shows "\<exists>c1. set_memory_cache c key data now = Inr c1 \<and>
              memory_cache c' = memory_cache c1 \<and>
              max_memory_items c' = max_memory_items c \<and>
              expiry_delta c' = expiry_delta c \<and>
              (cache_dir c' = cache_dir c \<or>
               cache_dir c' = AList.update (get_cache_path key) (Pickled data now) (cache_dir c) \<or>
               cache_dir c' = AList.update (get_cache_path key) Garbage (cache_dir c)) \<and>
              map_of (cache_dir c') (get_cache_path key)
                = set_file (key, data, persist, now, wr) (map_of (cache_dir c) (get_cache_path key))"
  using assms set_memory_cache_frame[of c key data now]
  by (cases wr) (auto simp: set_cache_def pickle_dump_def update_conv' split: sum.splits if_splits)

lemma set_cache_other_files:
  assumes "set_cache c key data persist now wr = Inr (ok, c')" and "p \<noteq> get_cache_path key"
  shows "map_of (cache_dir c') p = map_of (cache_dir c) p"
  using set_cache_effect[OF assms(1)] assms(2) by (auto simp: update_conv')

text \<open>The store after a \<open>get\<close> or a \<open>delete\<close>, returned or raised.\<close>

lemma after_get_cases:
  "(\<exists>r. get c key use_memory now_mem now_disk unlink_ok
          = Inr (r, after c (Get key use_memory now_mem now_disk unlink_ok))) \<or>
   after c (Get key use_memory now_mem now_disk unlink_ok) = c \<or>
   after c (Get key use_memory now_mem now_disk unlink_ok)
     = c\<lparr>memory_cache := AList.delete key (memory_cache c)\<rparr>"
  using get_result[of c key use_memory now_mem now_disk unlink_ok] by auto

lemma after_delete_cases:
  "after c (Delete key unlink_ok) = c\<lparr>memory_cache := AList.delete key (memory_cache c)\<rparr> \<or>
   after c (Delete key unlink_ok)
     = c\<lparr>memory_cache := AList.delete key (memory_cache c),
          cache_dir := AList.delete (get_cache_path key) (cache_dir c)\<rparr>"
  by (cases "map_of (cache_dir c) (get_cache_path key)")
     (simp_all add: delete_def Let_def path_exists_def unlink_def)

section \<open>The bound on the memory tier\<close>

lemma after_bound:
  assumes "length (memory_cache c) \<le> max_memory_items c"
  shows "length (memory_cache (after c a)) \<le> max_memory_items c \<and>
         max_memory_items (after c a) = max_memory_items c"
proof (cases a)
  case (Get key use_memory now_mem now_disk unlink_ok)
  let ?a = "after c (Get key use_memory now_mem now_disk unlink_ok)"
  let ?c0 = "c\<lparr>memory_cache := AList.delete key (memory_cache c)\<rparr>"
  have dropped: "length (memory_cache ?c0) \<le> max_memory_items ?c0"
    using assms length_delete_le[of key "memory_cache c"] by simp
  have d: "length (memory_cache c0) \<le> max_memory_items c0 \<Longrightarrow>
           get_disk c0 key now_disk unlink_ok = Inr (r, c') \<Longrightarrow>
           length (memory_cache c') \<le> max_memory_items c0 \<and>
           max_memory_items c' = max_memory_items c0" for c0 r c'
    using get_disk_effect[of c0 key now_disk unlink_ok r c']
      set_memory_cache_bound[of c0 key _ _ c'] set_memory_cache_frame[of c0 key _ _ c']
    by auto
  have "length (memory_cache ?a) \<le> max_memory_items c \<and> max_memory_items ?a = max_memory_items c"
    using after_get_cases[of c key use_memory now_mem now_disk unlink_ok]
  proof (elim disjE exE)
    fix r
    assume g: "get c key use_memory now_mem now_disk unlink_ok = Inr (r, ?a)"
    show ?thesis
      using get_effect[OF g]
    proof (elim disjE exE conjE)
      assume "?a = c" then show ?thesis using assms by simp
    next
      fix c0 assume "get_disk c0 key now_disk unlink_ok = Inr (r, ?a)" "c0 = c"
      then show ?thesis using d[of c r ?a] assms by simp
    next
      fix c0 assume gd: "get_disk c0 key now_disk unlink_ok = Inr (r, ?a)"
        and c0: "c0 = ?c0"
      then show ?thesis using d[of ?c0 r ?a] dropped by simp
    qed
  next
    assume "?a = c" then show ?thesis using assms by simp
  next
    assume "?a = ?c0" then show ?thesis using dropped by simp
  qed
  then show ?thesis using Get by simp
next
  case (Set key data persist now wr)
  show ?thesis
  proof (cases "set_cache c key data persist now wr")
    case (Inl e)
    then show ?thesis using Set assms by simp
  next
    case (Inr p)
    obtain ok c' where p: "p = (ok, c')" by (cases p)
    show ?thesis
      using set_cache_effect[of c key data persist now wr ok c'] Inr p Set assms
        set_memory_cache_bound[of c key data now]
      by auto
  qed
next
  case (Delete key unlink_ok)
  show ?thesis
    using after_delete_cases[of c key unlink_ok] assms length_delete_le[of key "memory_cache c"]
    unfolding Delete by (elim disjE) simp_all
next
  case (Clear_All unlink_ok)
  then show ?thesis by (simp add: clear_all_def Let_def split: prod.splits)
qed

lemma run_bound:
  "length (memory_cache c) \<le> max_memory_items c \<Longrightarrow>
   length (memory_cache (run c calls)) \<le> max_memory_items c \<and>
   max_memory_items (run c calls) = max_memory_items c"
  unfolding run_def
proof (induction calls arbitrary: c)
  case Nil
  then show ?case by simp
next
  case (Cons a calls)
  have "length (memory_cache (after c a)) \<le> max_memory_items (after c a)"
    and m: "max_memory_items (after c a) = max_memory_items c"
    using after_bound[OF Cons.prems, of a] by simp_all
  from Cons.IH[OF this(1)] m show ?case by simp
qed

section \<open>Filling the memory tier and evicting from it\<close>

lemma alist_update_new: "k \<notin> fst ` set m \<Longrightarrow> AList.update k v m = m @ [(k, v)]"
  by (induction m) auto

lemma set_call_after:
  assumes "0 < max_memory_items c"
  shows "\<exists>ok. set_cache c k v p t w = Inr (ok, after c (set_call (k, v, p, t, w)))"
proof -
  obtain c1 where "set_memory_cache c k v t = Inr c1"
    using set_memory_cache_ok[OF assms, of k v t] by blast
  then obtain ok c' where "set_cache c k v p t w = Inr (ok, c')"
    using set_cache_memory[of c k v t c1 p w] by blast
  then show ?thesis by simp
qed

lemma after_set_frame:
  "max_memory_items (after c (set_call a)) = max_memory_items c \<and>
   expiry_delta (after c (set_call a)) = expiry_delta c"
proof -
  obtain k v p t w where a: "a = (k, v, p, t, w)" by (cases a)
  show ?thesis
  proof (cases "set_cache c k v p t w")
    case (Inl e)
    then show ?thesis using a by simp
  next
    case (Inr r)
    obtain ok c' where r: "r = (ok, c')" by (cases r)
    show ?thesis using set_cache_effect[of c k v p t w ok c'] Inr r a by auto
  qed
qed

lemma run_sets_frame:
  "max_memory_items (run c (map set_call args)) = max_memory_items c \<and>
   expiry_delta (run c (map set_call args)) = expiry_delta c"
  unfolding run_def
  by (induction args arbitrary: c) (simp_all add: after_set_frame)

lemma run_sets_fill:
  assumes "distinct (map fst args)"
    and "fst ` set args \<inter> fst ` set (memory_cache c) = {}"
    and "length (memory_cache c) + length args \<le> max_memory_items c"
  shows "memory_cache (run c (map set_call args)) = memory_cache c @ map set_entry args"
  using assms unfolding run_def
proof (induction args arbitrary: c)
  case Nil
  then show ?case by simp
next
  case (Cons a args)
  obtain k v p t w where a: "a = (k, v, p, t, w)" by (cases a)
  let ?c' = "after c (set_call a)"
  have lt: "length (memory_cache c) < max_memory_items c" using Cons.prems(3) by simp
  have knew: "k \<notin> fst ` set (memory_cache c)" using Cons.prems(2) a by auto
  obtain ok where s: "set_cache c k v p t w = Inr (ok, ?c')"
    using set_call_after[of c k v p t w] lt a by auto
  obtain c1 where c1: "set_memory_cache c k v t = Inr c1" "memory_cache ?c' = memory_cache c1"
    using set_cache_effect[OF s] by blast
  have "memory_cache c1 = AList.update k (v, t) (memory_cache c)"
    using c1(1) lt by (auto simp: set_memory_cache_def)
  then have m': "memory_cache ?c' = memory_cache c @ [(k, (v, t))]"
    using c1(2) knew by (simp add: alist_update_new)
  have mx: "max_memory_items ?c' = max_memory_items c" by (simp add: after_set_frame)
  have 1: "distinct (map fst args)" using Cons.prems(1) by simp
  have 2: "fst ` set args \<inter> fst ` set (memory_cache ?c') = {}"
    using Cons.prems(1,2) m' a by auto
  have 3: "length (memory_cache ?c') + length args \<le> max_memory_items ?c'"
    using Cons.prems(3) m' mx by simp
  have "memory_cache (foldl after ?c' (map set_call args)) = memory_cache ?c' @ map set_entry args"
    using Cons.IH[OF 1 2 3] .
  then show ?case using m' a by simp
qed

lemma run_sets_other_files:
  assumes "p \<notin> get_cache_path ` fst ` set args"
  shows "map_of (cache_dir (run c (map set_call args))) p = map_of (cache_dir c) p"
  using assms unfolding run_def
proof (induction args arbitrary: c)
  case Nil
  then show ?case by simp
next
  case (Cons a args)
  obtain k v pe t w where a: "a = (k, v, pe, t, w)" by (cases a)
  have ne: "p \<noteq> get_cache_path k" using Cons.prems a by auto
  have "map_of (cache_dir (after c (set_call a))) p = map_of (cache_dir c) p"
  proof (cases "set_cache c k v pe t w")
    case (Inl e)
    then show ?thesis using a by simp
  next
    case (Inr r)
    obtain ok c' where r: "r = (ok, c')" by (cases r)
    show ?thesis using set_cache_other_files[of c k v pe t w ok c' p] Inr r a ne by simp
  qed
  moreover have "p \<notin> get_cache_path ` fst ` set args" using Cons.prems by auto
  ultimately show ?case using Cons.IH[of "after c (set_call a)"] by simp
qed

lemma run_sets_files:
  assumes "distinct (map (\<lambda>a. get_cache_path (fst a)) args)"
    and "0 < max_memory_items c"
    and "a \<in> set args"
  shows "map_of (cache_dir (run c (map set_call args))) (get_cache_path (fst a))
           = set_file a (map_of (cache_dir c) (get_cache_path (fst a)))"
  using assms
proof (induction args arbitrary: c)
  case Nil
  then show ?case by simp
next
  case (Cons b args)
  obtain k v p t w where b: "b = (k, v, p, t, w)" by (cases b)
  let ?c' = "after c (set_call b)"
  obtain ok where s: "set_cache c k v p t w = Inr (ok, ?c')"
    using set_call_after[OF Cons.prems(2), of k v p t w] b by auto
  have mx: "0 < max_memory_items ?c'" using Cons.prems(2) by (simp add: after_set_frame)
  have d: "distinct (map (\<lambda>a. get_cache_path (fst a)) args)" using Cons.prems(1) by simp
  have run_eq: "run c (map set_call (b # args)) = run ?c' (map set_call args)"
    by (simp add: run_def)
  show ?case
  proof (cases "a \<in> set args")
    case True
    then have ne: "get_cache_path (fst a) \<noteq> get_cache_path k"
      using Cons.prems(1) b by force
    have "map_of (cache_dir ?c') (get_cache_path (fst a)) = map_of (cache_dir c) (get_cache_path (fst a))"
      using set_cache_other_files[OF s ne] .
    then show ?thesis using Cons.IH[OF d mx True] run_eq by simp
  next
    case False
    then have ab: "a = b" using Cons.prems(3) by simp
    have "get_cache_path k \<notin> get_cache_path ` fst ` set args"
      using Cons.prems(1) b by force
    then have "map_of (cache_dir (run ?c' (map set_call args))) (get_cache_path k)
                 = map_of (cache_dir ?c') (get_cache_path k)"
      by (rule run_sets_other_files)
    also have "\<dots> = set_file (k, v, p, t, w) (map_of (cache_dir c) (get_cache_path k))"
      using set_cache_effect[OF s] by blast
    finally show ?thesis using ab b run_eq by simp
  qed
qed

lemma get_miss_fresh:
  assumes "map_of (memory_cache c) k = None"
    and "map_of (cache_dir c) (get_cache_path k) = Some (Pickled v t)"
    and "\<not> expiry_delta c < now_disk - t"
    and "0 < max_memory_items c"
  shows "\<exists>c'. get c k use_memory now_mem now_disk unlink_ok = Inr (Some v, c')"
proof -
  obtain c' where "set_memory_cache c k v t = Inr c'"
    using set_memory_cache_ok[OF assms(4), of k v t] by blast
  then show ?thesis
    using assms(1,2,3) by (simp add: get_def get_disk_present get_try_def pickle_load_def)
qed

lemma get_miss_absent:
  assumes "map_of (memory_cache c) k = None"
    and "map_of (cache_dir c) (get_cache_path k) = None"
    and "length (get_cache_path k) \<le> name_max"
  shows "get c k use_memory now_mem now_disk unlink_ok = Inr (None, c)"
  using assms by (simp add: get_def get_disk_absent)

lemma map_fst_set_entry: "map fst (map set_entry args) = map fst args"
  by (induction args) auto

lemma set_entry_mem: "(k, v, p, t, w) \<in> set args \<Longrightarrow> (k, (v, t)) \<in> set (map set_entry args)"
  by force

lemma distinct_paths_keys:
  "distinct (map (\<lambda>a. get_cache_path (fst a)) args) \<Longrightarrow> distinct (map fst args)"
  by (induction args) force+

lemma evicted_key_scenario:
  assumes empty: "memory_cache c = []"
    and full: "length args = max_memory_items c"
    and pos: "0 < max_memory_items c"
    and paths: "distinct (map (\<lambda>a. get_cache_path (fst a)) (args @ [(k, v, p, now, wr)]))"
  shows "\<exists>ko. oldest_key (map set_entry args) = Inr ko \<and>
           memory_cache (run c (map set_call args)) = map set_entry args \<and>
           length (memory_cache (run c (map set_call (args @ [(k, v, p, now, wr)]))))
             = max_memory_items c \<and>
           fst ` set (memory_cache (run c (map set_call (args @ [(k, v, p, now, wr)]))))
             = insert k (fst ` set args - {ko}) \<and>
           ko \<noteq> k \<and>
           (\<forall>vo po to wo. (ko, vo, po, to, wo) \<in> set args \<longrightarrow>
              (\<forall>e\<in>set (map set_entry args). to \<le> snd (snd e)) \<and>
              (po \<and> wo = Written \<and> \<not> expiry_delta c < now_disk - to \<longrightarrow>
                 (\<exists>c3. get (run c (map set_call (args @ [(k, v, p, now, wr)])))
                         ko use_memory now_mem now_disk unlink_ok = Inr (Some vo, c3))) \<and>
              (\<not> po \<and> map_of (cache_dir c) (get_cache_path ko) = None \<and>
               length (get_cache_path ko) \<le> name_max \<longrightarrow>
                 get (run c (map set_call (args @ [(k, v, p, now, wr)])))
                   ko use_memory now_mem now_disk unlink_ok
                 = Inr (None, run c (map set_call (args @ [(k, v, p, now, wr)])))))"
proof -
  let ?a = "(k, v, p, now, wr)"
  let ?m1 = "map set_entry args"
  define c1 where "c1 = run c (map set_call args)"
  define c2 where "c2 = run c (map set_call (args @ [?a]))"
  have c2: "c2 = after c1 (set_call ?a)" by (simp add: c1_def c2_def run_def)
  have dk: "distinct (map fst (args @ [?a]))" using paths by (rule distinct_paths_keys)
  have dargs: "distinct (map fst args)" and knew: "k \<notin> fst ` set args"
    using dk by auto
  have m1: "memory_cache c1 = ?m1"
    using run_sets_fill[of args c] dargs empty full by (simp add: c1_def)
  have fr1: "max_memory_items c1 = max_memory_items c" "expiry_delta c1 = expiry_delta c"
    using run_sets_frame[of c args] by (simp_all add: c1_def)
  have "args \<noteq> []" using full pos by auto
  then obtain ko where ko: "oldest_key ?m1 = Inr ko"
    using oldest_key_nonempty[of ?m1] by auto
  have ko_in1: "ko \<in> fst ` set ?m1" using ko by (rule oldest_key_in)
  then have ko_in: "ko \<in> fst ` set args"
    using map_fst_set_entry[of args] by (metis list.set_map)
  have kne: "ko \<noteq> k" using ko_in knew by auto
  obtain ok where s: "set_cache c1 k v p now wr = Inr (ok, c2)"
    using set_call_after[of c1 k v p now wr] fr1 pos c2 by auto
  obtain cm where cm: "set_memory_cache c1 k v now = Inr cm" "memory_cache c2 = memory_cache cm"
    and fr2: "max_memory_items c2 = max_memory_items c1" "expiry_delta c2 = expiry_delta c1"
    using set_cache_effect[OF s] by blast
  have m2: "memory_cache c2 = AList.update k (v, now) (AList.delete ko ?m1)"
    using set_memory_cache_cases[OF cm(1)] cm(2) m1 ko full fr1 by auto
  have dm1: "distinct (map fst ?m1)" unfolding map_fst_set_entry using dargs .
  have k_notin: "k \<notin> fst ` set (AList.delete ko ?m1)"
    using knew map_fst_set_entry[of args] by (auto simp: dom_alist_delete) (metis image_eqI list.set_map fst_conv)
  have len: "length (memory_cache c2) = max_memory_items c"
    using m2 k_notin ko_in1 dm1 full pos
    by (simp add: length_alist_update length_alist_delete)
  have keys: "fst ` set (memory_cache c2) = insert k (fst ` set args - {ko})"
  proof -
    have "fst ` set ?m1 = fst ` set args"
      using map_fst_set_entry[of args] by (metis list.set_map)
    then show ?thesis using m2 by (simp add: dom_update dom_alist_delete)
  qed
  have miss: "map_of (memory_cache c2) ko = None"
    using m2 kne by (simp add: update_conv' delete_conv')
  have rest: "(\<forall>e\<in>set ?m1. to \<le> snd (snd e)) \<and>
              (po \<and> wo = Written \<and> \<not> expiry_delta c < now_disk - to \<longrightarrow>
                 (\<exists>c3. get c2 ko use_memory now_mem now_disk unlink_ok = Inr (Some vo, c3))) \<and>
              (\<not> po \<and> map_of (cache_dir c) (get_cache_path ko) = None \<and>
               length (get_cache_path ko) \<le> name_max \<longrightarrow>
                 get c2 ko use_memory now_mem now_disk unlink_ok = Inr (None, c2))"
    if mem: "(ko, vo, po, to, wo) \<in> set args" for vo po to wo
  proof -
    obtain d t where dt: "(ko, (d, t)) \<in> set ?m1" "\<forall>e\<in>set ?m1. t \<le> snd (snd e)"
      using oldest_key_props[OF ko] by blast
    have "(ko, (vo, to)) \<in> set ?m1" using mem by (rule set_entry_mem)
    then have "(d, t) = (vo, to)" using eq_key_imp_eq_value[OF dm1 dt(1)] by blast
    then have oldest: "\<forall>e\<in>set ?m1. to \<le> snd (snd e)" using dt(2) by simp
    have pne: "get_cache_path ko \<noteq> get_cache_path k"
      using paths mem by force
    have dp: "distinct (map (\<lambda>a. get_cache_path (fst a)) args)" using paths by simp
    have "map_of (cache_dir c2) (get_cache_path ko) = map_of (cache_dir c1) (get_cache_path ko)"
      using set_cache_other_files[OF s pne] .
    also have "\<dots> = set_file (ko, vo, po, to, wo) (map_of (cache_dir c) (get_cache_path ko))"
      using run_sets_files[OF dp pos mem] by (simp add: c1_def)
    finally have fl: "map_of (cache_dir c2) (get_cache_path ko)
        = set_file (ko, vo, po, to, wo) (map_of (cache_dir c) (get_cache_path ko))" .
    have pos2: "0 < max_memory_items c2" using fr1 fr2 pos by simp
    have ex2: "expiry_delta c2 = expiry_delta c" using fr1 fr2 by simp
    have a: "\<exists>c3. get c2 ko use_memory now_mem now_disk unlink_ok = Inr (Some vo, c3)"
      if "po \<and> wo = Written \<and> \<not> expiry_delta c < now_disk - to"
    proof -
      have "map_of (cache_dir c2) (get_cache_path ko) = Some (Pickled vo to)"
        using fl that by simp
      then show ?thesis using get_miss_fresh[OF miss _ _ pos2] that ex2 by simp
    qed
    have b: "get c2 ko use_memory now_mem now_disk unlink_ok = Inr (None, c2)"
      if "\<not> po \<and> map_of (cache_dir c) (get_cache_path ko) = None \<and>
          length (get_cache_path ko) \<le> name_max"
    proof -
      have "map_of (cache_dir c2) (get_cache_path ko) = None" using fl that by simp
      then show ?thesis using get_miss_absent[OF miss] that by simp
    qed
    show ?thesis using oldest a b by blast
  qed
  show ?thesis
    using ko m1 len keys kne rest unfolding c1_def c2_def by blast
qed

lemma overflow_evicts_oldest:
  assumes "length (memory_cache c) = max_memory_items c"
    and "0 < max_memory_items c"
    and "distinct (map fst (memory_cache c))"
    and "key \<notin> fst ` set (memory_cache c)"
  shows "\<exists>ko d t c1. set_memory_cache c key data ts = Inr c1 \<and>
           map_of (memory_cache c) ko = Some (d, t) \<and>
           (\<forall>e\<in>set (memory_cache c). t \<le> snd (snd e)) \<and>
           map_of (memory_cache c1) ko = None \<and>
           map_of (memory_cache c1) key = Some (data, ts) \<and>
           fst ` set (memory_cache c1) = insert key (fst ` set (memory_cache c) - {ko}) \<and>
           length (memory_cache c1) = max_memory_items c"
proof -
  let ?m = "memory_cache c"
  have "?m \<noteq> []" using assms(1,2) by auto
  then obtain ko where ko: "oldest_key ?m = Inr ko" using oldest_key_nonempty by blast
  obtain d t where dt: "(ko, (d, t)) \<in> set ?m" "\<forall>e\<in>set ?m. t \<le> snd (snd e)"
    using oldest_key_props[OF ko] by blast
  have ko_in: "ko \<in> fst ` set ?m" using ko by (rule oldest_key_in)
  have kne: "ko \<noteq> key" using ko_in assms(4) by auto
  let ?m' = "AList.update key (data, ts) (AList.delete ko ?m)"
  have s: "set_memory_cache c key data ts = Inr (c\<lparr>memory_cache := ?m'\<rparr>)"
    using assms(1) ko by (simp add: set_memory_cache_def)
  have 1: "map_of ?m ko = Some (d, t)" using dt(1) assms(3) by simp
  have 2: "map_of ?m' ko = None" using kne by (simp add: update_conv' delete_conv')
  have 3: "map_of ?m' key = Some (data, ts)" by (simp add: update_conv')
  have 4: "fst ` set ?m' = insert key (fst ` set ?m - {ko})"
    by (simp add: dom_update dom_alist_delete)
  have "key \<notin> fst ` set (AList.delete ko ?m)" using assms(4) by (simp add: dom_alist_delete)
  then have 5: "length ?m' = max_memory_items c"
    using ko_in assms(1,2,3) by (simp add: length_alist_update length_alist_delete)
  show ?thesis using s 1 2 3 4 5 dt(2) by auto
qed

text \<open>
  Claim C5, as amended. In the final \<open>CacheManager\<close>: (1) a memory tier within its
  capacity stays within it after any sequence of calls; (2) when the tier is full and a
  new key is inserted, the entry \<open>ko\<close> with the oldest timestamp is removed and the tier
  holds exactly \<open>max_memory_items\<close> keys again; (3) \<open>_set_memory_cache\<close> leaves the
  directory as it is; (4) on a store with an empty memory tier of capacity C, after C
  calls of \<open>set\<close> and one more, all on keys with different file names, the tier holds the
  C entries first and exactly C keys at the end, the key \<open>ko\<close> with the oldest timestamp
  being the one left out; \<open>get(ko)\<close> then returns its value when it was written with
  \<open>persist\<close>, the write succeeded and the record has not expired, and \<open>None\<close> when
  it was written without \<open>persist\<close>, there was no file of its name before and the
  name is of legal length.
\<close>

theorem eviction_bound:
  "(length (memory_cache c) \<le> max_memory_items c \<longrightarrow>
      length (memory_cache (run c calls)) \<le> max_memory_items c) \<and>
   (length (memory_cache c) = max_memory_items c \<and> 0 < max_memory_items c \<and>
    distinct (map fst (memory_cache c)) \<and> key \<notin> fst ` set (memory_cache c) \<longrightarrow>
      (\<exists>ko d t c1. set_memory_cache c key data ts = Inr c1 \<and>
         map_of (memory_cache c) ko = Some (d, t) \<and>
         (\<forall>e\<in>set (memory_cache c). t \<le> snd (snd e)) \<and>
         map_of (memory_cache c1) ko = None \<and>
         map_of (memory_cache c1) key = Some (data, ts) \<and>
         fst ` set (memory_cache c1) = insert key (fst ` set (memory_cache c) - {ko}) \<and>
         length (memory_cache c1) = max_memory_items c)) \<and>
   (set_memory_cache c key data ts = Inr c' \<longrightarrow> cache_dir c' = cache_dir c) \<and>
   (memory_cache c0 = [] \<and> length args = max_memory_items c0 \<and> 0 < max_memory_items c0 \<and>
    distinct (map (\<lambda>a. get_cache_path (fst a)) (args @ [(k, v, p, now, wr)])) \<longrightarrow>
      (\<exists>ko. oldest_key (map set_entry args) = Inr ko \<and>
         memory_cache (run c0 (map set_call args)) = map set_entry args \<and>
         length (memory_cache (run c0 (map set_call (args @ [(k, v, p, now, wr)]))))
           = max_memory_items c0 \<and>
         fst ` set (memory_cache (run c0 (map set_call (args @ [(k, v, p, now, wr)]))))
           = insert k (fst ` set args - {ko}) \<and>
         ko \<noteq> k \<and>
         (\<forall>vo po to wo. (ko, vo, po, to, wo) \<in> set args \<longrightarrow>
            (\<forall>e\<in>set (map set_entry args). to \<le> snd (snd e)) \<and>
            (po \<and> wo = Written \<and> \<not> expiry_delta c0 < now_disk - to \<longrightarrow>
               (\<exists>c3. get (run c0 (map set_call (args @ [(k, v, p, now, wr)])))
                       ko use_memory now_mem now_disk unlink_ok = Inr (Some vo, c3))) \<and>
            (\<not> po \<and> map_of (cache_dir c0) (get_cache_path ko) = None \<and>
             length (get_cache_path ko) \<le> name_max \<longrightarrow>
               get (run c0 (map set_call (args @ [(k, v, p, now, wr)])))
                 ko use_memory now_mem now_disk unlink_ok
               = Inr (None, run c0 (map set_call (args @ [(k, v, p, now, wr)])))))))"
proof (intro conjI impI)
  assume "length (memory_cache c) \<le> max_memory_items c"
  then show "length (memory_cache (run c calls)) \<le> max_memory_items c"
    using run_bound[of c calls] by simp
next
  assume "length (memory_cache c) = max_memory_items c \<and> 0 < max_memory_items c \<and>
    distinct (map fst (memory_cache c)) \<and> key \<notin> fst ` set (memory_cache c)"
  then show "\<exists>ko d t c1. set_memory_cache c key data ts = Inr c1 \<and>
         map_of (memory_cache c) ko = Some (d, t) \<and>
         (\<forall>e\<in>set (memory_cache c). t \<le> snd (snd e)) \<and>
         map_of (memory_cache c1) ko = None \<and>
         map_of (memory_cache c1) key = Some (data, ts) \<and>
         fst ` set (memory_cache c1) = insert key (fst ` set (memory_cache c) - {ko}) \<and>
         length (memory_cache c1) = max_memory_items c"
    using overflow_evicts_oldest[of c key data ts] by blast
next
  assume "set_memory_cache c key data ts = Inr c'"
  then show "cache_dir c' = cache_dir c"
    using set_memory_cache_frame[of c key data ts c'] by simp
next
  assume a: "memory_cache c0 = [] \<and> length args = max_memory_items c0 \<and> 0 < max_memory_items c0 \<and>
    distinct (map (\<lambda>a. get_cache_path (fst a)) (args @ [(k, v, p, now, wr)]))"
  show "\<exists>ko. oldest_key (map set_entry args) = Inr ko \<and>
         memory_cache (run c0 (map set_call args)) = map set_entry args \<and>
         length (memory_cache (run c0 (map set_call (args @ [(k, v, p, now, wr)]))))
           = max_memory_items c0 \<and>
         fst ` set (memory_cache (run c0 (map set_call (args @ [(k, v, p, now, wr)]))))
           = insert k (fst ` set args - {ko}) \<and>
         ko \<noteq> k \<and>
         (\<forall>vo po to wo. (ko, vo, po, to, wo) \<in> set args \<longrightarrow>
            (\<forall>e\<in>set (map set_entry args). to \<le> snd (snd e)) \<and>
            (po \<and> wo = Written \<and> \<not> expiry_delta c0 < now_disk - to \<longrightarrow>
               (\<exists>c3. get (run c0 (map set_call (args @ [(k, v, p, now, wr)])))
                       ko use_memory now_mem now_disk unlink_ok = Inr (Some vo, c3))) \<and>
            (\<not> po \<and> map_of (cache_dir c0) (get_cache_path ko) = None \<and>
             length (get_cache_path ko) \<le> name_max \<longrightarrow>
               get (run c0 (map set_call (args @ [(k, v, p, now, wr)])))
                 ko use_memory now_mem now_disk unlink_ok
               = Inr (None, run c0 (map set_call (args @ [(k, v, p, now, wr)])))))"
    using a by (intro evicted_key_scenario) simp_all
qed

theorem eviction_bound_witness:
  "length (memory_cache (run \<lparr>cache_dir = [(''a.pkl'', Pickled (1::nat) 1)], expiry_delta = 10,
          memory_cache = [(''a'', (1, 1)), (''b'', (2, 2))], max_memory_items = 2\<rparr>
        [Set ''c'' 3 True 3 Written, Get ''a'' True 4 4 True])) \<le> 2 \<and>
   (\<exists>ko d t c1. set_memory_cache 
          \<lparr>cache_dir = [(''a.pkl'', Pickled (1::nat) 1)], expiry_delta = 10,
          memory_cache = [(''a'', (1, 1)), (''b'', (2, 2))], max_memory_items = 2\<rparr> ''c'' 3 3 = Inr c1 \<and>
         map_of (memory_cache 
          \<lparr>cache_dir = [(''a.pkl'', Pickled (1::nat) 1)], expiry_delta = 10,
          memory_cache = [(''a'', (1, 1)), (''b'', (2, 2))], max_memory_items = 2\<rparr>) ko = Some (d, t) \<and>
         (\<forall>e\<in>set (memory_cache 
          \<lparr>cache_dir = [(''a.pkl'', Pickled (1::nat) 1)], expiry_delta = 10,
          memory_cache = [(''a'', (1, 1)), (''b'', (2, 2))], max_memory_items = 2\<rparr>). t \<le> snd (snd e)) \<and>
         map_of (memory_cache c1) ko = None \<and>
         map_of (memory_cache c1) ''c'' = Some (3, 3) \<and>
         fst ` set (memory_cache c1) = insert ''c'' (fst ` set (memory_cache 
          \<lparr>cache_dir = [(''a.pkl'', Pickled (1::nat) 1)], expiry_delta = 10,
          memory_cache = [(''a'', (1, 1)), (''b'', (2, 2))], max_memory_items = 2\<rparr>) - {ko}) \<and>
         length (memory_cache c1) = max_memory_items 
          \<lparr>cache_dir = [(''a.pkl'', Pickled (1::nat) 1)], expiry_delta = 10,
          memory_cache = [(''a'', (1, 1)), (''b'', (2, 2))], max_memory_items = 2\<rparr>) \<and>
   cache_dir \<lparr>cache_dir = [(''a.pkl'', Pickled (1::nat) 1)], expiry_delta = 10,
          memory_cache = [(''b'', (2, 2)), (''c'', (3, 3))], max_memory_items = 2\<rparr> = cache_dir 
          \<lparr>cache_dir = [(''a.pkl'', Pickled (1::nat) 1)], expiry_delta = 10,
          memory_cache = [(''a'', (1, 1)), (''b'', (2, 2))], max_memory_items = 2\<rparr> \<and>
   (\<exists>c3. get (run \<lparr>cache_dir = [], expiry_delta = 10, memory_cache = [], max_memory_items = 2\<rparr>
               (map set_call ([(''a'', 1::nat, True, 1, Written), (''b'', 2, False, 2, Written)]
                              @ [(''c'', 3, True, 3, Written)])))
           ''a'' True 4 4 True = Inr (Some 1, c3)) \<and>
   get (run \<lparr>cache_dir = [], expiry_delta = 10, memory_cache = [], max_memory_items = 2\<rparr>
          (map set_call ([(''a'', 1::nat, False, 1, Written), (''b'', 2, True, 2, Written)]
                         @ [(''c'', 3, True, 3, Written)])))
     ''a'' True 4 4 True
   = Inr (None, run \<lparr>cache_dir = [], expiry_delta = 10, memory_cache = [], max_memory_items = 2\<rparr>
          (map set_call ([(''a'', 1::nat, False, 1, Written), (''b'', 2, True, 2, Written)]
                         @ [(''c'', 3, True, 3, Written)])))"
proof -
  let ?c = "\<lparr>cache_dir = [(''a.pkl'', Pickled (1::nat) 1)], expiry_delta = 10,
          memory_cache = [(''a'', (1, 1)), (''b'', (2, 2))], max_memory_items = 2\<rparr>"
  let ?c' = "\<lparr>cache_dir = [(''a.pkl'', Pickled (1::nat) 1)], expiry_delta = 10,
          memory_cache = [(''b'', (2, 2)), (''c'', (3, 3))], max_memory_items = 2\<rparr>"
  let ?e = "\<lparr>cache_dir = ([] :: (string \<times> nat content) list), expiry_delta = 10,
          memory_cache = [], max_memory_items = 2\<rparr>"
  let ?args1 = "[(''a'', 1::nat, True, 1::int, Written), (''b'', 2, False, 2, Written)]"
  let ?args2 = "[(''a'', 1::nat, False, 1::int, Written), (''b'', 2, True, 2, Written)]"
  have h1: "length (memory_cache ?c) \<le> max_memory_items ?c" by simp
  have h2: "length (memory_cache ?c) = max_memory_items ?c \<and> 0 < max_memory_items ?c \<and>
    distinct (map fst (memory_cache ?c)) \<and> ''c'' \<notin> fst ` set (memory_cache ?c)" by simp
  have h3: "set_memory_cache ?c ''c'' 3 3 = Inr ?c'"
    by (simp add: set_memory_cache_def oldest_key_def)
  have h4: "memory_cache ?e = [] \<and> length ?args1 = max_memory_items ?e \<and>
    0 < max_memory_items ?e \<and>
    distinct (map (\<lambda>a. get_cache_path (fst a)) (?args1 @ [(''c'', 3, True, 3, Written)]))"
    by (simp add: get_cache_path_def replace_def)
  have h5: "memory_cache ?e = [] \<and> length ?args2 = max_memory_items ?e \<and>
    0 < max_memory_items ?e \<and>
    distinct (map (\<lambda>a. get_cache_path (fst a)) (?args2 @ [(''c'', 3, True, 3, Written)]))"
    by (simp add: get_cache_path_def replace_def)
  have o1: "oldest_key (map set_entry ?args1) = Inr ''a''" by (simp add: oldest_key_def)
  have o2: "oldest_key (map set_entry ?args2) = Inr ''a''" by (simp add: oldest_key_def)
  note t1 = eviction_bound[of ?c "[Set ''c'' 3 True 3 Written, Get ''a'' True 4 4 True]"
      "''c''" 3 3 ?c' ?e ?args1 "''c''" 3 True 3 Written 4 True 4 True]
  note t2 = eviction_bound[of ?c "[Set ''c'' 3 True 3 Written, Get ''a'' True 4 4 True]"
      "''c''" 3 3 ?c' ?e ?args2 "''c''" 3 True 3 Written 4 True 4 True]
  have a: "length (memory_cache (run ?c [Set ''c'' 3 True 3 Written, Get ''a'' True 4 4 True])) \<le> 2"
    using t1[THEN conjunct1] h1 by simp
  have b: "\<exists>c3. get (run ?e (map set_call (?args1 @ [(''c'', 3, True, 3, Written)])))
           ''a'' True 4 4 True = Inr (Some 1, c3)"
  proof -
    from t1[THEN conjunct2, THEN conjunct2, THEN conjunct2, THEN mp, OF h4]
    obtain ko where ko: "oldest_key (map set_entry ?args1) = Inr ko"
      and r: "\<forall>vo po to wo. (ko, vo, po, to, wo) \<in> set ?args1 \<longrightarrow>
            (\<forall>e\<in>set (map set_entry ?args1). to \<le> snd (snd e)) \<and>
            (po \<and> wo = Written \<and> \<not> expiry_delta ?e < 4 - to \<longrightarrow>
               (\<exists>c3. get (run ?e (map set_call (?args1 @ [(''c'', 3, True, 3, Written)])))
                       ko True 4 4 True = Inr (Some vo, c3))) \<and>
            (\<not> po \<and> map_of (cache_dir ?e) (get_cache_path ko) = None \<and>
             length (get_cache_path ko) \<le> name_max \<longrightarrow>
               get (run ?e (map set_call (?args1 @ [(''c'', 3, True, 3, Written)])))
                 ko True 4 4 True
               = Inr (None, run ?e (map set_call (?args1 @ [(''c'', 3, True, 3, Written)]))))"
      by (elim exE conjE)
    have k: "ko = ''a''" using ko o1 by simp
    have m: "(''a'', 1, True, 1, Written) \<in> set ?args1" by simp
    have f: "True \<and> Written = Written \<and> \<not> expiry_delta ?e < 4 - 1" by simp
    show ?thesis
      using r[unfolded k, rule_format, OF m, THEN conjunct2, THEN conjunct1, rule_format, OF f] .
  qed
  have c: "get (run ?e (map set_call (?args2 @ [(''c'', 3, True, 3, Written)])))
     ''a'' True 4 4 True
   = Inr (None, run ?e (map set_call (?args2 @ [(''c'', 3, True, 3, Written)])))"
  proof -
    from t2[THEN conjunct2, THEN conjunct2, THEN conjunct2, THEN mp, OF h5]
    obtain ko where ko: "oldest_key (map set_entry ?args2) = Inr ko"
      and r: "\<forall>vo po to wo. (ko, vo, po, to, wo) \<in> set ?args2 \<longrightarrow>
            (\<forall>e\<in>set (map set_entry ?args2). to \<le> snd (snd e)) \<and>
            (po \<and> wo = Written \<and> \<not> expiry_delta ?e < 4 - to \<longrightarrow>
               (\<exists>c3. get (run ?e (map set_call (?args2 @ [(''c'', 3, True, 3, Written)])))
                       ko True 4 4 True = Inr (Some vo, c3))) \<and>
            (\<not> po \<and> map_of (cache_dir ?e) (get_cache_path ko) = None \<and>
             length (get_cache_path ko) \<le> name_max \<longrightarrow>
               get (run ?e (map set_call (?args2 @ [(''c'', 3, True, 3, Written)])))
                 ko True 4 4 True
               = Inr (None, run ?e (map set_call (?args2 @ [(''c'', 3, True, 3, Written)]))))"
      by (elim exE conjE)
    have k: "ko = ''a''" using ko o2 by simp
    have m: "(''a'', 1, False, 1, Written) \<in> set ?args2" by simp
    have f: "\<not> False \<and> map_of (cache_dir ?e) (get_cache_path ''a'') = None \<and>
             length (get_cache_path ''a'') \<le> name_max"
      by (simp add: get_cache_path_def replace_def name_max_def)
    show ?thesis
      using r[unfolded k, rule_format, OF m, THEN conjunct2, THEN conjunct2, rule_format, OF f] .
  qed
  have d: "(\<exists>ko d t c1. set_memory_cache ?c ''c'' 3 3 = Inr c1 \<and>
         map_of (memory_cache ?c) ko = Some (d, t) \<and>
         (\<forall>e\<in>set (memory_cache ?c). t \<le> snd (snd e)) \<and>
         map_of (memory_cache c1) ko = None \<and>
         map_of (memory_cache c1) ''c'' = Some (3, 3) \<and>
         fst ` set (memory_cache c1) = insert ''c'' (fst ` set (memory_cache ?c) - {ko}) \<and>
         length (memory_cache c1) = max_memory_items ?c)"
    using t1[THEN conjunct2, THEN conjunct1, THEN mp, OF h2] .
  have e: "cache_dir ?c' = cache_dir ?c"
    using t1[THEN conjunct2, THEN conjunct2, THEN conjunct1, THEN mp, OF h3] .
  from a d e b c show ?thesis by (intro conjI)
qed

text \<open>
  The claim as written fails for keys that share a file name. With capacity 1,
  \<open>set('a/b', 1, persist=False)\<close> and then \<open>set('a_b', 2)\<close> are two insertions of
  different keys; the second evicts \<open>a/b\<close>, which was never persisted, and writes
  \<open>a_b.pkl\<close>, the file name of both keys. \<open>get('a/b')\<close> is then not absent: it
  returns 2.
\<close>

theorem eviction_bound_counterexample:
  "run \<lparr>cache_dir = [], expiry_delta = 10, memory_cache = [], max_memory_items = 1\<rparr>
         [Set ''a/b'' (1::nat) False 0 Written, Set ''a_b'' 2 True 1 Written]
     = \<lparr>cache_dir = [(''a_b.pkl'', Pickled 2 1)], expiry_delta = 10,
         memory_cache = [(''a_b'', (2, 1))], max_memory_items = 1\<rparr> \<and>
   get \<lparr>cache_dir = [(''a_b.pkl'', Pickled (2::nat) 1)], expiry_delta = 10,
         memory_cache = [(''a_b'', (2, 1))], max_memory_items = 1\<rparr> ''a/b'' True 2 2 True
     = Inr (Some 2, \<lparr>cache_dir = [(''a_b.pkl'', Pickled 2 1)], expiry_delta = 10,
                     memory_cache = [(''a/b'', (2, 1))], max_memory_items = 1\<rparr>)"
  by (simp add: run_def set_cache_def set_memory_cache_def oldest_key_def pickle_dump_def
      get_def get_disk_def get_try_def path_exists_def pickle_load_def get_cache_path_def
      replace_def)

section \<open>The freshness invariant\<close>

lemma set_alist_update_subset: "set (AList.update k v m) \<subseteq> insert (k, v) (set m)"
  by (induction m) auto

lemma set_alist_delete_subset: "set (AList.delete k m) \<subseteq> set m"
  by (induction m) auto

lemma map_of_alist_delete_Some:
  "map_of (AList.delete k m) k' = Some x \<Longrightarrow> map_of m k' = Some x"
  by (cases "k' = k") (simp_all add: delete_conv')

lemma memory_fresh_iff:
  "memory_fresh c \<longleftrightarrow>
     (\<forall>k v t v' t'. map_of (memory_cache c) k = Some (v, t) \<longrightarrow>
        map_of (cache_dir c) (get_cache_path k) = Some (Pickled v' t') \<longrightarrow> t' \<le> t)"
proof
  assume f: "memory_fresh c"
  show "\<forall>k v t v' t'. map_of (memory_cache c) k = Some (v, t) \<longrightarrow>
        map_of (cache_dir c) (get_cache_path k) = Some (Pickled v' t') \<longrightarrow> t' \<le> t"
  proof (intro allI impI)
    fix k v t v' t'
    assume m: "map_of (memory_cache c) k = Some (v, t)"
      and d: "map_of (cache_dir c) (get_cache_path k) = Some (Pickled v' t')"
    have "k \<in> set (map fst (memory_cache c))"
      using m by (metis map_of_eq_None_iff option.distinct(1) set_map)
    then have "case (map_of (memory_cache c) k, map_of (cache_dir c) (get_cache_path k)) of
                 (Some (v, t), Some (Pickled v' t')) \<Rightarrow> t' \<le> t | _ \<Rightarrow> True"
      using f unfolding memory_fresh_def list_all_iff by blast
    then show "t' \<le> t" using m d by simp
  qed
next
  assume a: "\<forall>k v t v' t'. map_of (memory_cache c) k = Some (v, t) \<longrightarrow>
        map_of (cache_dir c) (get_cache_path k) = Some (Pickled v' t') \<longrightarrow> t' \<le> t"
  show "memory_fresh c"
    unfolding memory_fresh_def list_all_iff
  proof
    fix k assume "k \<in> set (map fst (memory_cache c))"
    show "case (map_of (memory_cache c) k, map_of (cache_dir c) (get_cache_path k)) of
                 (Some (v, t), Some (Pickled v' t')) \<Rightarrow> t' \<le> t | _ \<Rightarrow> True"
      using a by (auto split: option.splits content.splits)
  qed
qed

lemma stamps_le_iff:
  "stamps_le T c \<longleftrightarrow>
     (\<forall>k v t. (k, (v, t)) \<in> set (memory_cache c) \<longrightarrow> t \<le> T) \<and>
     (\<forall>p v t. (p, Pickled v t) \<in> set (cache_dir c) \<longrightarrow> t \<le> T)"
proof -
  have 1: "(\<forall>e\<in>set (memory_cache c). snd (snd e) \<le> T) \<longleftrightarrow>
           (\<forall>k v t. (k, (v, t)) \<in> set (memory_cache c) \<longrightarrow> t \<le> T)"
    by force
  have 2: "(\<forall>e\<in>set (cache_dir c). case snd e of Pickled v t \<Rightarrow> t \<le> T | Garbage \<Rightarrow> True) \<longleftrightarrow>
           (\<forall>p v t. (p, Pickled v t) \<in> set (cache_dir c) \<longrightarrow> t \<le> T)"
  proof
    assume l: "\<forall>e\<in>set (cache_dir c). case snd e of Pickled v t \<Rightarrow> t \<le> T | Garbage \<Rightarrow> True"
    show "\<forall>p v t. (p, Pickled v t) \<in> set (cache_dir c) \<longrightarrow> t \<le> T"
    proof (intro allI impI)
      fix p v t assume "(p, Pickled v t) \<in> set (cache_dir c)"
      then have "case snd (p, Pickled v t) of Pickled v t \<Rightarrow> t \<le> T | Garbage \<Rightarrow> True"
        using l by blast
      then show "t \<le> T" by simp
    qed
  next
    assume r: "\<forall>p v t. (p, Pickled v t) \<in> set (cache_dir c) \<longrightarrow> t \<le> T"
    show "\<forall>e\<in>set (cache_dir c). case snd e of Pickled v t \<Rightarrow> t \<le> T | Garbage \<Rightarrow> True"
    proof
      fix e assume e: "e \<in> set (cache_dir c)"
      obtain p f where pf: "e = (p, f)" by (cases e)
      show "case snd e of Pickled v t \<Rightarrow> t \<le> T | Garbage \<Rightarrow> True"
        using r e pf by (cases f) auto
    qed
  qed
  show ?thesis unfolding stamps_le_def list_all_iff using 1 2 by simp
qed

lemma stamps_le_mono: "stamps_le T c \<Longrightarrow> T \<le> T' \<Longrightarrow> stamps_le T' c"
  unfolding stamps_le_iff by force

text \<open>A store whose tiers only lost entries keeps the invariant.\<close>

lemma store_inv_shrink:
  assumes "store_inv K T c"
    and "\<And>k x. map_of (memory_cache c') k = Some x \<Longrightarrow> map_of (memory_cache c) k = Some x"
    and "set (memory_cache c') \<subseteq> set (memory_cache c)"
    and "\<And>p f. map_of (cache_dir c') p = Some f \<Longrightarrow> map_of (cache_dir c) p = Some f"
    and "set (cache_dir c') \<subseteq> set (cache_dir c)"
  shows "store_inv K T c'"
proof -
  have f: "memory_fresh c" and s: "stamps_le T c" and k: "fst ` set (memory_cache c) \<subseteq> K"
    using assms(1) by (simp_all add: store_inv_def)
  have "memory_fresh c'"
    unfolding memory_fresh_iff
  proof (intro allI impI)
    fix k v t v' t'
    assume "map_of (memory_cache c') k = Some (v, t)"
      and "map_of (cache_dir c') (get_cache_path k) = Some (Pickled v' t')"
    then have "map_of (memory_cache c) k = Some (v, t)"
      and "map_of (cache_dir c) (get_cache_path k) = Some (Pickled v' t')"
      using assms(2,4) by blast+
    then show "t' \<le> t" using f unfolding memory_fresh_iff by blast
  qed
  moreover have "stamps_le T c'"
    using s assms(3,5) unfolding stamps_le_iff by blast
  moreover have "fst ` set (memory_cache c') \<subseteq> K"
    using k assms(3) by blast
  ultimately show ?thesis by (simp add: store_inv_def)
qed

lemma set_memory_cache_maps:
  assumes "set_memory_cache c k d t = Inr c1"
  shows "map_of (memory_cache c1) k = Some (d, t)"
    and "\<And>k' x. k' \<noteq> k \<Longrightarrow> map_of (memory_cache c1) k' = Some x
           \<Longrightarrow> map_of (memory_cache c) k' = Some x"
    and "set (memory_cache c1) \<subseteq> insert (k, (d, t)) (set (memory_cache c))"
proof -
  have "\<exists>m0. memory_cache c1 = AList.update k (d, t) m0 \<and> set m0 \<subseteq> set (memory_cache c) \<and>
          (\<forall>k' x. map_of m0 k' = Some x \<longrightarrow> map_of (memory_cache c) k' = Some x)"
    using set_memory_cache_cases[OF assms]
  proof (elim disjE conjE exE)
    assume "memory_cache c1 = AList.update k (d, t) (memory_cache c)"
    then show ?thesis by (intro exI[of _ "memory_cache c"]) simp
  next
    fix ko
    assume "memory_cache c1 = AList.update k (d, t) (AList.delete ko (memory_cache c))"
    then show ?thesis
      using set_alist_delete_subset[of ko "memory_cache c"]
        map_of_alist_delete_Some[of ko "memory_cache c"]
      by (intro exI[of _ "AList.delete ko (memory_cache c)"]) simp
  qed
  then obtain m0 where m0: "memory_cache c1 = AList.update k (d, t) m0"
    and sub: "set m0 \<subseteq> set (memory_cache c)"
    and look: "\<And>k' x. map_of m0 k' = Some x \<Longrightarrow> map_of (memory_cache c) k' = Some x"
    by blast
  show "map_of (memory_cache c1) k = Some (d, t)" using m0 by (simp add: update_conv')
  show "\<And>k' x. k' \<noteq> k \<Longrightarrow> map_of (memory_cache c1) k' = Some x
           \<Longrightarrow> map_of (memory_cache c) k' = Some x"
    using m0 look by (simp add: update_conv')
  show "set (memory_cache c1) \<subseteq> insert (k, (d, t)) (set (memory_cache c))"
    using m0 sub set_alist_update_subset[of k "(d, t)" m0] by auto
qed

text \<open>Promotion of the record of a key's file into the memory tier.\<close>

lemma promote_inv:
  assumes inv: "store_inv K T c" and kK: "k \<in> K"
    and fl: "map_of (cache_dir c) (get_cache_path k) = Some (Pickled d t)"
    and s: "set_memory_cache c k d t = Inr c1"
  shows "store_inv K T c1"
proof -
  have f: "memory_fresh c" and st: "stamps_le T c" and ks: "fst ` set (memory_cache c) \<subseteq> K"
    using inv by (simp_all add: store_inv_def)
  have dir: "cache_dir c1 = cache_dir c" using set_memory_cache_frame[OF s] by simp
  note m = set_memory_cache_maps[OF s]
  have tT: "t \<le> T"
    using st fl unfolding stamps_le_iff by (meson map_of_SomeD)
  have "memory_fresh c1"
    unfolding memory_fresh_iff
  proof (intro allI impI)
    fix k0 v t0 v' t'
    assume a: "map_of (memory_cache c1) k0 = Some (v, t0)"
      and b: "map_of (cache_dir c1) (get_cache_path k0) = Some (Pickled v' t')"
    show "t' \<le> t0"
    proof (cases "k0 = k")
      case True
      then have "t0 = t" using a m(1) by simp
      moreover have "t' = t" using b dir fl True by simp
      ultimately show ?thesis by simp
    next
      case False
      then have "map_of (memory_cache c) k0 = Some (v, t0)" using a m(2) by blast
      moreover have "map_of (cache_dir c) (get_cache_path k0) = Some (Pickled v' t')"
        using b dir by simp
      ultimately show ?thesis using f unfolding memory_fresh_iff by blast
    qed
  qed
  moreover have "stamps_le T c1"
    unfolding stamps_le_iff
  proof (intro conjI allI impI)
    fix k0 v t0 assume "(k0, (v, t0)) \<in> set (memory_cache c1)"
    then have "(k0, (v, t0)) = (k, (d, t)) \<or> (k0, (v, t0)) \<in> set (memory_cache c)"
      using m(3) by blast
    then show "t0 \<le> T" using tT st unfolding stamps_le_iff by blast
  next
    fix p v t0 assume "(p, Pickled v t0) \<in> set (cache_dir c1)"
    then show "t0 \<le> T" using st dir unfolding stamps_le_iff by auto
  qed
  moreover have "fst ` set (memory_cache c1) \<subseteq> K"
    using m(3) ks kK by force
  ultimately show ?thesis by (simp add: store_inv_def)
qed

lemma set_cache_inv:
  assumes inj: "inj_on get_cache_path K" and inv: "store_inv K T c" and kK: "k \<in> K"
    and now: "T \<le> now" and s: "set_cache c k d persist now wr = Inr (ok, c')"
  shows "store_inv K now c'"
proof -
  have f: "memory_fresh c" and st: "stamps_le T c" and ks: "fst ` set (memory_cache c) \<subseteq> K"
    using inv by (simp_all add: store_inv_def)
  obtain c1 where c1: "set_memory_cache c k d now = Inr c1"
    and mem: "memory_cache c' = memory_cache c1"
    and dir: "cache_dir c' = cache_dir c \<or>
              cache_dir c' = AList.update (get_cache_path k) (Pickled d now) (cache_dir c) \<or>
              cache_dir c' = AList.update (get_cache_path k) Garbage (cache_dir c)"
    using set_cache_effect[OF s] by blast
  note m = set_memory_cache_maps[OF c1]
  have dir_set: "set (cache_dir c') \<subseteq>
      insert (get_cache_path k, Pickled d now) (insert (get_cache_path k, Garbage) (set (cache_dir c)))"
    using dir
  proof (elim disjE)
    assume "cache_dir c' = cache_dir c"
    then show ?thesis by auto
  next
    assume e: "cache_dir c' = AList.update (get_cache_path k) (Pickled d now) (cache_dir c)"
    show ?thesis
      unfolding e using set_alist_update_subset[of "get_cache_path k" "Pickled d now" "cache_dir c"]
      by blast
  next
    assume e: "cache_dir c' = AList.update (get_cache_path k) Garbage (cache_dir c)"
    show ?thesis
      unfolding e using set_alist_update_subset[of "get_cache_path k" Garbage "cache_dir c"]
      by blast
  qed
  have own: "t' \<le> now" if "map_of (cache_dir c') (get_cache_path k) = Some (Pickled v' t')" for v' t'
  proof -
    have "(get_cache_path k, Pickled v' t') \<in> set (cache_dir c')" using that by (rule map_of_SomeD)
    then have "t' = now \<or> (get_cache_path k, Pickled v' t') \<in> set (cache_dir c)"
      using dir_set by auto
    then show ?thesis using st now unfolding stamps_le_iff by force
  qed
  have "memory_fresh c'"
    unfolding memory_fresh_iff
  proof (intro allI impI)
    fix k0 v t0 v' t'
    assume a: "map_of (memory_cache c') k0 = Some (v, t0)"
      and b: "map_of (cache_dir c') (get_cache_path k0) = Some (Pickled v' t')"
    show "t' \<le> t0"
    proof (cases "k0 = k")
      case True
      then have "t0 = now" using a mem m(1) by simp
      then show ?thesis using own b True by simp
    next
      case False
      then have old: "map_of (memory_cache c) k0 = Some (v, t0)" using a mem m(2) by simp
      then have "(k0, (v, t0)) \<in> set (memory_cache c)" by (rule map_of_SomeD)
      then have "k0 \<in> fst ` set (memory_cache c)" by force
      then have "k0 \<in> K" using ks by blast
      then have "get_cache_path k0 \<noteq> get_cache_path k"
        using inj kK False by (auto dest: inj_onD)
      then have "map_of (cache_dir c') (get_cache_path k0) = map_of (cache_dir c) (get_cache_path k0)"
        using set_cache_other_files[OF s] by simp
      then have "map_of (cache_dir c) (get_cache_path k0) = Some (Pickled v' t')" using b by simp
      then show ?thesis using f old unfolding memory_fresh_iff by blast
    qed
  qed
  moreover have "stamps_le now c'"
    unfolding stamps_le_iff
  proof (intro conjI allI impI)
    fix k0 v t0 assume "(k0, (v, t0)) \<in> set (memory_cache c')"
    then have "(k0, (v, t0)) = (k, (d, now)) \<or> (k0, (v, t0)) \<in> set (memory_cache c)"
      using m(3) mem by auto
    then show "t0 \<le> now" using st now unfolding stamps_le_iff by force
  next
    fix p v t0 assume "(p, Pickled v t0) \<in> set (cache_dir c')"
    then have "t0 = now \<or> (p, Pickled v t0) \<in> set (cache_dir c)"
      using dir_set by auto
    then show "t0 \<le> now" using st now unfolding stamps_le_iff by force
  qed
  moreover have "fst ` set (memory_cache c') \<subseteq> K"
    using m(3) mem ks kK by force
  ultimately show ?thesis by (simp add: store_inv_def)
qed

lemma drop_memory_inv:
  assumes "store_inv K T c"
  shows "store_inv K T (c\<lparr>memory_cache := AList.delete k (memory_cache c)\<rparr>)"
proof (rule store_inv_shrink[OF assms])
  fix k' x
  assume "map_of (memory_cache (c\<lparr>memory_cache := AList.delete k (memory_cache c)\<rparr>)) k' = Some x"
  then have "map_of (AList.delete k (memory_cache c)) k' = Some x" by simp
  then show "map_of (memory_cache c) k' = Some x" by (rule map_of_alist_delete_Some)
next
  show "set (memory_cache (c\<lparr>memory_cache := AList.delete k (memory_cache c)\<rparr>))
          \<subseteq> set (memory_cache c)"
    using set_alist_delete_subset[of k "memory_cache c"] by simp
next
  fix p f
  assume "map_of (cache_dir (c\<lparr>memory_cache := AList.delete k (memory_cache c)\<rparr>)) p = Some f"
  then show "map_of (cache_dir c) p = Some f" by simp
next
  show "set (cache_dir (c\<lparr>memory_cache := AList.delete k (memory_cache c)\<rparr>)) \<subseteq> set (cache_dir c)"
    by simp
qed

lemma drop_file_inv:
  assumes "store_inv K T c"
  shows "store_inv K T (c\<lparr>cache_dir := AList.delete p (cache_dir c)\<rparr>)"
proof (rule store_inv_shrink[OF assms])
  fix k' x
  assume "map_of (memory_cache (c\<lparr>cache_dir := AList.delete p (cache_dir c)\<rparr>)) k' = Some x"
  then show "map_of (memory_cache c) k' = Some x" by simp
next
  show "set (memory_cache (c\<lparr>cache_dir := AList.delete p (cache_dir c)\<rparr>)) \<subseteq> set (memory_cache c)"
    by simp
next
  fix q f
  assume "map_of (cache_dir (c\<lparr>cache_dir := AList.delete p (cache_dir c)\<rparr>)) q = Some f"
  then have "map_of (AList.delete p (cache_dir c)) q = Some f" by simp
  then show "map_of (cache_dir c) q = Some f" by (rule map_of_alist_delete_Some)
next
  show "set (cache_dir (c\<lparr>cache_dir := AList.delete p (cache_dir c)\<rparr>)) \<subseteq> set (cache_dir c)"
    using set_alist_delete_subset[of p "cache_dir c"] by simp
qed

lemma get_disk_inv:
  assumes inv: "store_inv K T c" and kK: "k \<in> K"
    and g: "get_disk c k now unlink_ok = Inr (r, c')"
  shows "store_inv K T c'"
  using get_disk_effect[OF g]
proof (elim disjE conjE exE)
  assume "c' = c" then show ?thesis using inv by simp
next
  assume "c' = c\<lparr>cache_dir := AList.delete (get_cache_path k) (cache_dir c)\<rparr>"
  then show ?thesis using drop_file_inv[OF inv] by simp
next
  fix d t
  assume "map_of (cache_dir c) (get_cache_path k) = Some (Pickled d t)"
    and "set_memory_cache c k d t = Inr c'"
  then show ?thesis using promote_inv[OF inv kK] by blast
qed

lemma get_inv:
  assumes inv: "store_inv K T c" and kK: "k \<in> K"
    and g: "get c k use_memory now_mem now_disk unlink_ok = Inr (r, c')"
  shows "store_inv K T c'"
  using get_effect[OF g]
proof (elim disjE conjE exE)
  assume "c' = c" then show ?thesis using inv by simp
next
  fix c0 assume "get_disk c0 k now_disk unlink_ok = Inr (r, c')" and "c0 = c"
  then show ?thesis using get_disk_inv[OF inv kK] by blast
next
  fix c0 assume gd: "get_disk c0 k now_disk unlink_ok = Inr (r, c')"
    and c0: "c0 = c\<lparr>memory_cache := AList.delete k (memory_cache c)\<rparr>"
  have "store_inv K T c0" unfolding c0 using inv by (rule drop_memory_inv)
  then show ?thesis using get_disk_inv[OF _ kK gd] by blast
qed

lemma delete_inv:
  assumes "store_inv K T c"
  shows "store_inv K T (after c (Delete k unlink_ok))"
proof -
  let ?c1 = "c\<lparr>memory_cache := AList.delete k (memory_cache c)\<rparr>"
  have 1: "store_inv K T ?c1" using assms by (rule drop_memory_inv)
  have 2: "store_inv K T (?c1\<lparr>cache_dir := AList.delete (get_cache_path k) (cache_dir ?c1)\<rparr>)"
    using 1 by (rule drop_file_inv)
  show ?thesis
    using after_delete_cases[of c k unlink_ok] 1 2 by (elim disjE) simp_all
qed

lemma clear_files_subset: "set (snd (clear_files unlink_ok names (n, dir))) \<subseteq> set dir"
proof (induction names arbitrary: n dir)
  case Nil
  then show ?case by simp
next
  case (Cons f names)
  show ?case
  proof (cases "unlink (unlink_ok f) f dir")
    case (Inl e)
    then show ?thesis using Cons.IH[of n dir] by simp
  next
    case (Inr dir')
    then have "dir' = AList.delete f dir" by (auto simp: unlink_def split: if_splits)
    then have "set dir' \<subseteq> set dir" by (simp add: set_alist_delete_subset)
    then show ?thesis using Cons.IH[of "n + 1" dir'] Inr by auto
  qed
qed

lemma clear_all_inv:
  assumes "store_inv K T c"
  shows "store_inv K T (snd (clear_all c unlink_ok))"
proof -
  obtain n dir where cf: "clear_files unlink_ok (glob_pkl (cache_dir c)) (0, cache_dir c) = (n, dir)"
    by (cases "clear_files unlink_ok (glob_pkl (cache_dir c)) (0, cache_dir c)")
  then have c': "snd (clear_all c unlink_ok) = c\<lparr>memory_cache := [], cache_dir := dir\<rparr>"
    by (simp add: clear_all_def)
  have sub: "set dir \<subseteq> set (cache_dir c)"
    using clear_files_subset[of unlink_ok "glob_pkl (cache_dir c)" 0 "cache_dir c"] cf by simp
  have st: "stamps_le T c" using assms by (simp add: store_inv_def)
  have "memory_fresh (c\<lparr>memory_cache := [], cache_dir := dir\<rparr>)"
    by (simp add: memory_fresh_def)
  moreover have "stamps_le T (c\<lparr>memory_cache := [], cache_dir := dir\<rparr>)"
    using st sub unfolding stamps_le_iff by auto
  ultimately show ?thesis using c' by (simp add: store_inv_def)
qed

lemma store_inv_mono: "store_inv K T c \<Longrightarrow> T \<le> T' \<Longrightarrow> store_inv K T' c"
  using stamps_le_mono[of T c T'] by (simp add: store_inv_def)

lemma after_inv:
  assumes inj: "inj_on get_cache_path K" and inv: "store_inv K T c"
    and keys: "set (call_keys a) \<subseteq> K" and chron: "chronological T (a # calls)"
  shows "\<exists>T'. store_inv K T' (after c a) \<and> chronological T' calls"
proof (cases a)
  case (Get k use_memory now_mem now_disk unlink_ok)
  let ?a = "after c (Get k use_memory now_mem now_disk unlink_ok)"
  have kK: "k \<in> K" using keys Get by simp
  have "store_inv K T ?a"
    using after_get_cases[of c k use_memory now_mem now_disk unlink_ok]
  proof (elim disjE exE)
    fix r assume "get c k use_memory now_mem now_disk unlink_ok = Inr (r, ?a)"
    then show ?thesis using get_inv[OF inv kK] by blast
  next
    assume "?a = c" then show ?thesis using inv by simp
  next
    assume "?a = c\<lparr>memory_cache := AList.delete k (memory_cache c)\<rparr>"
    then show ?thesis using drop_memory_inv[OF inv, of k] by simp
  qed
  moreover have "chronological T calls" using chron Get by simp
  ultimately show ?thesis using Get by auto
next
  case (Set k d persist now wr)
  have kK: "k \<in> K" using keys Set by simp
  have now: "T \<le> now" and rest: "chronological now calls" using chron Set by simp_all
  have "store_inv K now (after c a)"
  proof (cases "set_cache c k d persist now wr")
    case (Inl e)
    then have "after c a = c" using Set by simp
    then show ?thesis using store_inv_mono[OF inv now] by simp
  next
    case (Inr p)
    obtain ok c' where p: "p = (ok, c')" by (cases p)
    have "store_inv K now c'" using set_cache_inv[OF inj inv kK now] Inr p by simp
    moreover have "after c a = c'" using Set Inr p by simp
    ultimately show ?thesis by simp
  qed
  then show ?thesis using rest by auto
next
  case (Delete k unlink_ok)
  have "store_inv K T (after c a)" using delete_inv[OF inv, of k unlink_ok] Delete by simp
  moreover have "chronological T calls" using chron Delete by simp
  ultimately show ?thesis by auto
next
  case (Clear_All unlink_ok)
  have "store_inv K T (after c a)" using clear_all_inv[OF inv, of unlink_ok] Clear_All by simp
  moreover have "chronological T calls" using chron Clear_All by simp
  ultimately show ?thesis by auto
qed

lemma run_inv:
  assumes "inj_on get_cache_path K"
  shows "store_inv K T c \<Longrightarrow> \<forall>a\<in>set calls. set (call_keys a) \<subseteq> K \<Longrightarrow> chronological T calls
         \<Longrightarrow> \<exists>T'. store_inv K T' (run c calls)"
proof (induction calls arbitrary: c T)
  case Nil
  then show ?case by (auto simp: run_def)
next
  case (Cons a calls)
  have "set (call_keys a) \<subseteq> K" using Cons.prems(2) by simp
  then obtain T' where 1: "store_inv K T' (after c a)" and 2: "chronological T' calls"
    using after_inv[OF assms Cons.prems(1) _ Cons.prems(3)] by blast
  have 3: "\<forall>a\<in>set calls. set (call_keys a) \<subseteq> K" using Cons.prems(2) by simp
  have "run c (a # calls) = run (after c a) calls" by (simp add: run_def)
  then show ?case using Cons.IH[OF 1 3 2] by simp
qed

lemma collision_free_inj: "collision_free ks \<Longrightarrow> inj_on get_cache_path (set ks)"
  unfolding collision_free_def by (simp add: distinct_map)

text \<open>
  Claim C8, as amended. Take a store of the final \<open>CacheManager\<close> in which the memory
  tier is fresh (an empty tier is) and no timestamp is later than \<open>T\<close>, and any sequence
  of \<open>get\<close>, \<open>set\<close>, \<open>delete\<close> and \<open>clear_all\<close> calls, \<open>get\<close> with
  \<open>use_memory\<close> false included, in which the clock readings of \<open>set\<close> start at
  \<open>T\<close> or later and never go back, and in which no two different keys, of the calls
  or of the memory tier at the start, share a file name. Then in the store reached no
  entry of the memory tier is older than the record in the file of its key.
\<close>

theorem memory_freshness:
  "memory_fresh c \<and> stamps_le T c \<and> chronological T calls \<and>
   collision_free (map fst (memory_cache c) @ concat (map call_keys calls))
   \<longrightarrow> memory_fresh (run c calls)"
proof
  assume a: "memory_fresh c \<and> stamps_le T c \<and> chronological T calls \<and>
   collision_free (map fst (memory_cache c) @ concat (map call_keys calls))"
  let ?K = "set (map fst (memory_cache c) @ concat (map call_keys calls))"
  have inj: "inj_on get_cache_path ?K" using a collision_free_inj by blast
  have inv: "store_inv ?K T c" using a by (auto simp: store_inv_def)
  have keys: "\<forall>a\<in>set calls. set (call_keys a) \<subseteq> ?K" by auto
  obtain T' where "store_inv ?K T' (run c calls)"
    using run_inv[OF inj inv keys] a by blast
  then show "memory_fresh (run c calls)" by (simp add: store_inv_def)
qed

theorem memory_freshness_witness:
  "memory_fresh (run \<lparr>cache_dir = [(''old.pkl'', Pickled (0::nat) 0)], expiry_delta = 10,
                       memory_cache = [], max_memory_items = 50\<rparr>
     [Set ''a'' 1 True 1 Written, Set ''a'' 2 False 2 Written, Get ''a'' False 3 3 True,
      Set ''b'' 3 True 4 Dump_Fails, Get ''old'' True 5 5 True, Delete ''b'' False,
      Clear_All (\<lambda>f. False), Get ''a'' True 6 6 True])"
  using memory_freshness [of
      "\<lparr>cache_dir = [(''old.pkl'', Pickled (0::nat) 0)], expiry_delta = 10,
                       memory_cache = [], max_memory_items = 50\<rparr>" 0
      "[Set ''a'' 1 True 1 Written, Set ''a'' 2 False 2 Written, Get ''a'' False 3 3 True,
      Set ''b'' 3 True 4 Dump_Fails, Get ''old'' True 5 5 True, Delete ''b'' False,
      Clear_All (\<lambda>f. False), Get ''a'' True 6 6 True]"]
  by (simp add: memory_fresh_def stamps_le_def collision_free_def get_cache_path_def replace_def)

text \<open>
  The claim as written fails in two ways. The keys \<open>a/b\<close> and \<open>a_b\<close> share the file
  \<open>a_b.pkl\<close>: after \<open>set('a/b', 1)\<close> at time 1 and \<open>set('a_b', 2)\<close> at time 2 the
  memory entry of \<open>a/b\<close> has timestamp 1 and the record in its file has timestamp 2.
  And when the clock goes back (\<open>datetime.now()\<close> is local wall-clock time), a
  \<open>set('k', 2, persist=False)\<close> at time 5 after a \<open>set('k', 1)\<close> at time 10 leaves
  a memory entry older than the record on disk.
\<close>

theorem memory_freshness_counterexample:
  "run \<lparr>cache_dir = [], expiry_delta = 10, memory_cache = [], max_memory_items = 50\<rparr>
       [Set ''a/b'' (1::nat) True 1 Written, Set ''a_b'' 2 True 2 Written]
     = \<lparr>cache_dir = [(''a_b.pkl'', Pickled 2 2)], expiry_delta = 10,
         memory_cache = [(''a/b'', (1, 1)), (''a_b'', (2, 2))], max_memory_items = 50\<rparr> \<and>
   \<not> memory_fresh \<lparr>cache_dir = [(''a_b.pkl'', Pickled (2::nat) 2)], expiry_delta = 10,
         memory_cache = [(''a/b'', (1, 1)), (''a_b'', (2, 2))], max_memory_items = 50\<rparr> \<and>
   run \<lparr>cache_dir = [], expiry_delta = 10, memory_cache = [], max_memory_items = 50\<rparr>
       [Set ''k'' (1::nat) True 10 Written, Set ''k'' 2 False 5 Written]
     = \<lparr>cache_dir = [(''k.pkl'', Pickled 1 10)], expiry_delta = 10,
         memory_cache = [(''k'', (2, 5))], max_memory_items = 50\<rparr> \<and>
   \<not> memory_fresh \<lparr>cache_dir = [(''k.pkl'', Pickled (1::nat) 10)], expiry_delta = 10,
         memory_cache = [(''k'', (2, 5))], max_memory_items = 50\<rparr>"
  by (simp add: run_def set_cache_def set_memory_cache_def pickle_dump_def memory_fresh_def
      get_cache_path_def replace_def)

end
